theory Spec2Isabelle
  imports Main "HOL-Library.Sublist"
begin

section \<open>The real-time subprocess of the C++ kernel\<close>

text \<open>
  This theory embeds \<^verbatim>\<open>jupyter_cpp_kernel/kernel.py\<close>: the class
  \<^verbatim>\<open>RealTimeSubprocess\<close> (a \<^verbatim>\<open>Popen\<close> with two queues, each filled by a daemon
  thread and emptied by \<^verbatim>\<open>write_contents\<close>) and the poll-and-flush loops of
  \<^verbatim>\<open>CppKernel.do_execute\<close>.

  The program is concurrent. Its threads share the two queues and nothing else, so
  an execution is an interleaving of atomic actions: the calling thread performs the
  queue operations and \<^verbatim>\<open>poll\<close> in program order, and before each of them a batch of
  background actions (the child writing or exiting, a drain thread taking one step)
  may happen. The batches are an explicit input, the schedule; every theorem holds
  for every schedule.
\<close>

subsection \<open>Bytes, exceptions and pipes\<close>

type_synonym bytes = string

datatype error = OSError | RuntimeError | Empty | ValueError | UnicodeDecodeError

text \<open>What a call that may block does: return, raise, or wait.\<close>

datatype 'a outcome = Returns 'a | Raises error | Blocks

text \<open>
  The read end of a pipe, with the part of the operating system's state that decides
  what \<^verbatim>\<open>stream.read\<close> does: the bytes written and not yet read, whether the write
  end is still open, whether the device reports an I/O error, and whether the parent
  has closed its handle. The field \<open>written\<close> records every byte the child ever
  wrote; no operation reads it.
\<close>

record stream =
  buffered :: bytes
  writer_open :: bool
  failing :: bool
  handle_closed :: bool
  written :: bytes

definition fresh_stream :: stream where
  "fresh_stream =
     \<lparr>buffered = [], writer_open = True, failing = False, handle_closed = False, written = []\<rparr>"

text \<open>
  \<^verbatim>\<open>stream.read(n)\<close> on an unbuffered pipe (\<^verbatim>\<open>bufsize=0\<close>): one \<^verbatim>\<open>read(2)\<close>. It returns
  the bytes available, at most \<open>n\<close>; the empty bytes once the pipe is empty and the
  write end closed; it waits while the pipe is empty and the write end open.
\<close>

definition stream_read :: "nat \<Rightarrow> stream \<Rightarrow> bytes outcome \<times> stream" where
  "stream_read n s =
     (if handle_closed s then (Raises ValueError, s)
      else if failing s then (Raises OSError, s)
      else if buffered s \<noteq> [] then
        (Returns (take n (buffered s)), s\<lparr>buffered := drop n (buffered s)\<rparr>)
      else if writer_open s then (Blocks, s)
      else (Returns [], s))"

text \<open>The child writes to its end of the pipe, while that end is open.\<close>

definition stream_write :: "bytes \<Rightarrow> stream \<Rightarrow> stream" where
  "stream_write bs s =
     (if writer_open s then s\<lparr>buffered := buffered s @ bs, written := written s @ bs\<rparr> else s)"

definition stream_close :: "stream \<Rightarrow> stream" where
  "stream_close s = s\<lparr>handle_closed := True\<rparr>"

subsection \<open>The drain thread: \<^verbatim>\<open>_enqueue_output\<close>\<close>

text \<open>
  \<^verbatim>\<open>
  def _enqueue_output(stream, queue):
      for line in iter(lambda: stream.read(4096), b''):
          queue.put(line)
      stream.close()
  \<close>
  The thread is at the read, holds a line it is about to put, is about to close the
  stream, has returned, or has died of an exception (nothing in the function catches
  one). One call of \<open>enqueue_output\<close> is one atomic action of the thread.
\<close>

datatype thread = Reading | Putting bytes | Closing | Finished | Crashed error

definition chunk_size :: nat where
  "chunk_size = 4096"

fun enqueue_output :: "thread \<Rightarrow> stream \<Rightarrow> bytes list \<Rightarrow> thread \<times> stream \<times> bytes list" where
  "enqueue_output Reading s q =
     (case stream_read chunk_size s of
        (Returns line, s') \<Rightarrow> if line = [] then (Closing, s', q) else (Putting line, s', q)
      | (Raises e, s') \<Rightarrow> (Crashed e, s', q)
      | (Blocks, s') \<Rightarrow> (Reading, s', q))"
| "enqueue_output (Putting line) s q = (Reading, s, q @ [line])"
| "enqueue_output Closing s q = (Finished, stream_close s, q)"
| "enqueue_output Finished s q = (Finished, s, q)"
| "enqueue_output (Crashed e) s q = (Crashed e, s, q)"

subsection \<open>The state of one \<^verbatim>\<open>RealTimeSubprocess\<close>\<close>

text \<open>
  A callback is an opaque callable: the model records each invocation with its
  argument in \<open>calls\<close>, and the callable says whether it returns or raises.
  \<open>history\<close> records the calls of \<^verbatim>\<open>poll\<close> and \<^verbatim>\<open>write_contents\<close> in order; no
  operation reads it. \<open>child_status\<close> is the exit status the operating system holds,
  \<open>returncode\<close> the attribute that \<^verbatim>\<open>poll\<close> sets.
\<close>

datatype sid = Stdout | Stderr

datatype call = Write_to_stdout bytes | Write_to_stderr bytes

datatype action = Polled "int option" | Flushed

type_synonym callback = "bytes \<Rightarrow> error option"

record world =
  args :: "string list"
  write_to_stdout :: callback
  write_to_stderr :: callback
  stdout :: stream
  stderr :: stream
  stdout_queue :: "bytes list"
  stderr_queue :: "bytes list"
  stdout_thread :: thread
  stderr_thread :: thread
  child_status :: "int option"
  returncode :: "int option"
  calls :: "call list"
  history :: "action list"

fun stream_of :: "sid \<Rightarrow> world \<Rightarrow> stream" where
  "stream_of Stdout w = stdout w"
| "stream_of Stderr w = stderr w"

fun queue_of :: "sid \<Rightarrow> world \<Rightarrow> bytes list" where
  "queue_of Stdout w = stdout_queue w"
| "queue_of Stderr w = stderr_queue w"

fun thread_of :: "sid \<Rightarrow> world \<Rightarrow> thread" where
  "thread_of Stdout w = stdout_thread w"
| "thread_of Stderr w = stderr_thread w"

fun stream_upd :: "sid \<Rightarrow> stream \<Rightarrow> world \<Rightarrow> world" where
  "stream_upd Stdout s w = w\<lparr>stdout := s\<rparr>"
| "stream_upd Stderr s w = w\<lparr>stderr := s\<rparr>"

fun queue_upd :: "sid \<Rightarrow> bytes list \<Rightarrow> world \<Rightarrow> world" where
  "queue_upd Stdout q w = w\<lparr>stdout_queue := q\<rparr>"
| "queue_upd Stderr q w = w\<lparr>stderr_queue := q\<rparr>"

fun thread_upd :: "sid \<Rightarrow> thread \<Rightarrow> world \<Rightarrow> world" where
  "thread_upd Stdout t w = w\<lparr>stdout_thread := t\<rparr>"
| "thread_upd Stderr t w = w\<lparr>stderr_thread := t\<rparr>"

text \<open>
  \<^verbatim>\<open>
  def __init__(self, cmd, write_to_stdout, write_to_stderr):
      self._write_to_stdout = write_to_stdout
      self._write_to_stderr = write_to_stderr
      super().__init__(cmd, stdout=subprocess.PIPE, stderr=subprocess.PIPE, bufsize=0)
      self._stdout_queue = Queue()
      self._stdout_thread = Thread(target=RealTimeSubprocess._enqueue_output, ...)
      self._stdout_thread.daemon = True
      self._stdout_thread.start()
      (the same for stderr)
  \<close>
  Two lines of the constructor ask the operating system for something and raise when it
  refuses: \<^verbatim>\<open>Popen.__init__\<close> (no such file, no permission, no more processes) and
  \<^verbatim>\<open>Thread.start\<close> (no more threads). The platform says which exception, if any, each of
  them raises. An exception leaves \<^verbatim>\<open>__init__\<close> at that line; nothing in the constructor
  catches it or undoes the lines above it. What those lines had made by then is kept
  beside the exception: the child process (by its command), the pipes open to it, the
  queues, and the drain threads that were started.
\<close>

record platform =
  popen :: "string list \<Rightarrow> error option"
  thread_start :: "sid \<Rightarrow> error option"

record remains =
  child :: "string list option"
  pipes :: "sid list"
  queues :: "sid list"
  threads :: "sid list"

definition nothing :: remains where
  "nothing = \<lparr>child = None, pipes = [], queues = [], threads = []\<rparr>"

definition RealTimeSubprocess_init ::
  "platform \<Rightarrow> string list \<Rightarrow> callback \<Rightarrow> callback \<Rightarrow> error \<times> remains + world" where
  "RealTimeSubprocess_init host cmd out_cb err_cb =
     (case popen host cmd of
        Some e \<Rightarrow> Inl (e, nothing)
      | None \<Rightarrow>
          (let r1 = nothing\<lparr>child := Some cmd, pipes := [Stdout, Stderr]\<rparr>;
               r2 = r1\<lparr>queues := queues r1 @ [Stdout]\<rparr>
           in case thread_start host Stdout of
                Some e \<Rightarrow> Inl (e, r2)
              | None \<Rightarrow>
                  (let r3 = r2\<lparr>threads := threads r2 @ [Stdout]\<rparr>;
                       r4 = r3\<lparr>queues := queues r3 @ [Stderr]\<rparr>
                   in case thread_start host Stderr of
                        Some e \<Rightarrow> Inl (e, r4)
                      | None \<Rightarrow>
                          Inr \<lparr>args = cmd, write_to_stdout = out_cb, write_to_stderr = err_cb,
                               stdout = fresh_stream, stderr = fresh_stream,
                               stdout_queue = [], stderr_queue = [],
                               stdout_thread = Reading, stderr_thread = Reading,
                               child_status = None, returncode = None,
                               calls = [], history = []\<rparr>)))"

subsection \<open>Background actions and schedules\<close>

text \<open>
  What happens beside the calling thread: the child writes bytes to one of its
  streams, closes one, or exits (the operating system then closes both write ends and
  keeps the exit status); a device starts to fail; a drain thread takes its next step.
\<close>

datatype bg_event =
  Child_write sid bytes
| Child_close sid
| Child_exit int
| Io_fault sid
| Thread_step sid

fun bg_step :: "bg_event \<Rightarrow> world \<Rightarrow> world" where
  "bg_step (Child_write sid bs) w = stream_upd sid (stream_write bs (stream_of sid w)) w"
| "bg_step (Child_close sid) w = stream_upd sid ((stream_of sid w)\<lparr>writer_open := False\<rparr>) w"
| "bg_step (Child_exit code) w =
     (if child_status w = None
      then w\<lparr>child_status := Some code,
             stdout := (stdout w)\<lparr>writer_open := False\<rparr>,
             stderr := (stderr w)\<lparr>writer_open := False\<rparr>\<rparr>
      else w)"
| "bg_step (Io_fault sid) w = stream_upd sid ((stream_of sid w)\<lparr>failing := True\<rparr>) w"
| "bg_step (Thread_step sid) w =
     (case enqueue_output (thread_of sid w) (stream_of sid w) (queue_of sid w) of
        (t, s, q) \<Rightarrow> thread_upd sid t (stream_upd sid s (queue_upd sid q w)))"

definition run_bg :: "bg_event list \<Rightarrow> world \<Rightarrow> world" where
  "run_bg es w = fold bg_step es w"

text \<open>
  A schedule is the list of batches of background actions, one batch before each
  shared-memory action of the calling thread. When the schedule is used up nothing
  happens in the background any more.
\<close>

type_synonym schedule = "bg_event list list"

type_synonym config = "schedule \<times> world"

fun interleave :: "config \<Rightarrow> config" where
  "interleave ([], w) = ([], w)"
| "interleave (b # sch, w) = (sch, run_bg b w)"

subsection \<open>The calling thread: \<^verbatim>\<open>write_contents\<close> and \<^verbatim>\<open>poll\<close>\<close>

text \<open>
  \<^verbatim>\<open>Queue.qsize\<close> and \<^verbatim>\<open>Queue.get_nowait\<close>: the queue is a FIFO, \<^verbatim>\<open>put\<close> appends at the
  end and \<^verbatim>\<open>get_nowait\<close> takes the head or raises \<^verbatim>\<open>Empty\<close>.
\<close>

definition qsize :: "sid \<Rightarrow> config \<Rightarrow> nat \<times> config" where
  "qsize sid c = (case interleave c of (sch, w) \<Rightarrow> (length (queue_of sid w), (sch, w)))"

definition get_nowait :: "sid \<Rightarrow> config \<Rightarrow> (error + bytes) \<times> config" where
  "get_nowait sid c =
     (case interleave c of (sch, w) \<Rightarrow>
        (case queue_of sid w of
           [] \<Rightarrow> (Inl Empty, (sch, w))
         | x # xs \<Rightarrow> (Inr x, (sch, queue_upd sid xs w))))"

text \<open>
  \<^verbatim>\<open>
  def read_all_from_queue(queue):
      res = b''
      size = queue.qsize()
      while size != 0:
          res += queue.get_nowait()
          size -= 1
      return res
  \<close>
\<close>

fun read_loop :: "sid \<Rightarrow> nat \<Rightarrow> bytes \<Rightarrow> config \<Rightarrow> (error + bytes) \<times> config" where
  "read_loop sid 0 res c = (Inr res, c)"
| "read_loop sid (Suc sz) res c =
     (case get_nowait sid c of
        (Inl e, c') \<Rightarrow> (Inl e, c')
      | (Inr x, c') \<Rightarrow> read_loop sid sz (res @ x) c')"

definition read_all_from_queue :: "sid \<Rightarrow> config \<Rightarrow> (error + bytes) \<times> config" where
  "read_all_from_queue sid c = (case qsize sid c of (sz, c') \<Rightarrow> read_loop sid sz [] c')"

text \<open>Invoking a callback: the invocation is recorded, then the callable answers.\<close>

fun invoke :: "call \<Rightarrow> config \<Rightarrow> error option \<times> config" where
  "invoke (Write_to_stdout bs) (sch, w) =
     (write_to_stdout w bs, (sch, w\<lparr>calls := calls w @ [Write_to_stdout bs]\<rparr>))"
| "invoke (Write_to_stderr bs) (sch, w) =
     (write_to_stderr w bs, (sch, w\<lparr>calls := calls w @ [Write_to_stderr bs]\<rparr>))"

definition log_action :: "action \<Rightarrow> config \<Rightarrow> config" where
  "log_action a c = (case c of (sch, w) \<Rightarrow> (sch, w\<lparr>history := history w @ [a]\<rparr>))"

text \<open>
  \<^verbatim>\<open>
  def write_contents(self):
      stdout_contents = read_all_from_queue(self._stdout_queue)
      if stdout_contents:
          self._write_to_stdout(stdout_contents)
      stderr_contents = read_all_from_queue(self._stderr_queue)
      if stderr_contents:
          self._write_to_stderr(stderr_contents)
  \<close>
  The result is the exception that left the call, if any, and the state it left.
\<close>

definition write_contents :: "config \<Rightarrow> error option \<times> config" where
  "write_contents c =
     (case read_all_from_queue Stdout (log_action Flushed c) of
        (Inl e, c1) \<Rightarrow> (Some e, c1)
      | (Inr stdout_contents, c1) \<Rightarrow>
          (case (if stdout_contents \<noteq> [] then invoke (Write_to_stdout stdout_contents) c1
                 else (None, c1)) of
             (Some e, c2) \<Rightarrow> (Some e, c2)
           | (None, c2) \<Rightarrow>
               (case read_all_from_queue Stderr c2 of
                  (Inl e, c3) \<Rightarrow> (Some e, c3)
                | (Inr stderr_contents, c3) \<Rightarrow>
                    (if stderr_contents \<noteq> [] then invoke (Write_to_stderr stderr_contents) c3
                     else (None, c3)))))"

text \<open>
  \<^verbatim>\<open>Popen.poll\<close>: asks the operating system once, without waiting, stores the exit
  status in \<^verbatim>\<open>returncode\<close> when there is one, and returns \<^verbatim>\<open>returncode\<close>.
\<close>

definition poll :: "config \<Rightarrow> int option \<times> config" where
  "poll c =
     (case interleave c of (sch, w) \<Rightarrow>
        (let w' = (if returncode w = None then w\<lparr>returncode := child_status w\<rparr> else w)
         in (returncode w', log_action (Polled (returncode w')) (sch, w'))))"

subsection \<open>A caller of the class\<close>

text \<open>
  Any caller is a sequence of calls of \<^verbatim>\<open>write_contents\<close> (Flush) and \<^verbatim>\<open>poll\<close> (Poll); it
  sees what each call returns or raises, and goes on whatever that is.
\<close>

datatype request = Flush | Poll

datatype observation = Flush_result "error option" | Poll_result "int option"

fun caller :: "request list \<Rightarrow> config \<Rightarrow> observation list \<times> config" where
  "caller [] c = ([], c)"
| "caller (Flush # rs) c =
     (case write_contents c of (r, c') \<Rightarrow>
        (case caller rs c' of (os, c'') \<Rightarrow> (Flush_result r # os, c'')))"
| "caller (Poll # rs) c =
     (case poll c of (r, c') \<Rightarrow>
        (case caller rs c' of (os, c'') \<Rightarrow> (Poll_result r # os, c'')))"

subsection \<open>The poll-and-flush loops of \<^verbatim>\<open>do_execute\<close>\<close>

text \<open>
  \<^verbatim>\<open>
  while p.poll() is None:
      p.write_contents()
  p.write_contents()
  \<close>
  The loop need not end: a child that never exits keeps it running, and then the
  function has no result (\<open>None\<close>). An exception of a callback leaves the loop.
\<close>

partial_function (option) wait_loop :: "config \<Rightarrow> (error option \<times> config) option" where
  "wait_loop c =
     (case poll c of
        (None, c1) \<Rightarrow>
          (case write_contents c1 of
             (Some e, c2) \<Rightarrow> Some (Some e, c2)
           | (None, c2) \<Rightarrow> wait_loop c2)
      | (Some rc, c1) \<Rightarrow> Some (None, c1))"

declare wait_loop.simps [code]

definition poll_and_flush :: "config \<Rightarrow> (error option \<times> config) option" where
  "poll_and_flush c =
     (case wait_loop c of
        None \<Rightarrow> None
      | Some (Some e, c1) \<Rightarrow> Some (Some e, c1)
      | Some (None, c1) \<Rightarrow> Some (write_contents c1))"

text \<open>
  The kernel's side. A message is one \<^verbatim>\<open>send_response(iopub_socket, 'stream', {'name': ...,
  'text': ...})\<close>. \<^verbatim>\<open>create_jupyter_subprocess\<close> announces the command on stderr and builds
  the subprocess with callbacks that decode the bytes and send them; \<open>decode\<close> is
  \<^verbatim>\<open>bytes.decode\<close>, which raises on bytes that are not UTF-8. The messages a subprocess
  has sent are read off its recorded calls.
\<close>

type_synonym message = "sid \<times> string"

fun join :: "string list \<Rightarrow> string" where
  "join [] = []"
| "join [x] = x"
| "join (x # y # ys) = x @ '' '' @ join (y # ys)"

fun str_nat :: "nat \<Rightarrow> string" where
  "str_nat n =
     (if n < 10 then [char_of (48 + n)] else str_nat (n div 10) @ [char_of (48 + n mod 10)])"

definition str_int :: "int \<Rightarrow> string" where
  "str_int i = (if i < 0 then ''-'' @ str_nat (nat (- i)) else str_nat (nat i))"

definition decoding :: "(bytes \<Rightarrow> error + string) \<Rightarrow> callback" where
  "decoding decode contents = (case decode contents of Inl e \<Rightarrow> Some e | Inr text \<Rightarrow> None)"

fun forwarded :: "(bytes \<Rightarrow> error + string) \<Rightarrow> call list \<Rightarrow> message list" where
  "forwarded decode [] = []"
| "forwarded decode (Write_to_stdout bs # cs) =
     (case decode bs of Inl e \<Rightarrow> [] | Inr text \<Rightarrow> [(Stdout, text)]) @ forwarded decode cs"
| "forwarded decode (Write_to_stderr bs # cs) =
     (case decode bs of Inl e \<Rightarrow> [] | Inr text \<Rightarrow> [(Stderr, text)]) @ forwarded decode cs"

definition create_jupyter_subprocess ::
  "platform \<Rightarrow> (bytes \<Rightarrow> error + string) \<Rightarrow> string list \<Rightarrow>
   message list \<times> (error \<times> remains + world)" where
  "create_jupyter_subprocess host decode cmd =
     ([(Stderr, ''running cmd: '' @ join cmd @ [CHR 0x0A])],
      RealTimeSubprocess_init host cmd (decoding decode) (decoding decode))"

definition compile ::
  "platform \<Rightarrow> (bytes \<Rightarrow> error + string) \<Rightarrow>
   string \<Rightarrow> string \<Rightarrow> string \<Rightarrow> string list \<Rightarrow> string list \<Rightarrow>
   message list \<times> (error \<times> remains + world)" where
  "compile host decode compiler source_filename binary_filename cflags ldflags =
     create_jupyter_subprocess host decode
       ([compiler, source_filename] @ (''-std=c++11'' # cflags) @ [''-o'', binary_filename] @ ldflags)"

text \<open>
  \<^verbatim>\<open>do_execute\<close> from the call of \<^verbatim>\<open>compile\<close> on (the magics and the temporary files are
  its inputs here): the compiler runs under the first schedule, the binary under the
  second. The result is what the call returned or raised, the messages sent, and the
  subprocesses it made, in the state it left them; there is none when a loop never
  ends.
\<close>

record execution =
  raised :: "error option"
  sent :: "message list"
  processes :: "world list"

definition str_returncode :: "world \<Rightarrow> string" where
  "str_returncode p = (case returncode p of None \<Rightarrow> ''None'' | Some rc \<Rightarrow> str_int rc)"

definition do_execute ::
  "platform \<Rightarrow> (bytes \<Rightarrow> error + string) \<Rightarrow>
   string \<Rightarrow> string \<Rightarrow> string \<Rightarrow> string list \<Rightarrow> string list \<Rightarrow>
   schedule \<Rightarrow> schedule \<Rightarrow> execution option" where
  "do_execute host decode compiler source_filename binary_filename cflags ldflags sch1 sch2 =
     (case compile host decode compiler source_filename binary_filename cflags ldflags of
        (m1, Inl (e, left)) \<Rightarrow> Some \<lparr>raised = Some e, sent = m1, processes = []\<rparr>
      | (m1, Inr p) \<Rightarrow>
          (case poll_and_flush (sch1, p) of
             None \<Rightarrow> None
           | Some (Some e, (s1, p1)) \<Rightarrow>
               Some \<lparr>raised = Some e, sent = m1 @ forwarded decode (calls p1), processes = [p1]\<rparr>
           | Some (None, (s1, p1)) \<Rightarrow>
               (if returncode p1 \<noteq> Some 0 then
                  Some \<lparr>raised = None,
                        sent = m1 @ forwarded decode (calls p1) @
                          [(Stderr, ''[c++ kernel] g++ execute with code '' @ str_returncode p1 @
                              '', the executable will not be executed'')],
                        processes = [p1]\<rparr>
                else
                  (case create_jupyter_subprocess host decode [binary_filename] of
                     (m2, Inl (e, left)) \<Rightarrow>
                       Some \<lparr>raised = Some e, sent = m1 @ forwarded decode (calls p1) @ m2,
                             processes = [p1]\<rparr>
                   | (m2, Inr q) \<Rightarrow>
                       (case poll_and_flush (sch2, q) of
                          None \<Rightarrow> None
                        | Some (Some e, (s2, q1)) \<Rightarrow>
                            Some \<lparr>raised = Some e,
                                  sent = m1 @ forwarded decode (calls p1) @ m2 @
                                    forwarded decode (calls q1),
                                  processes = [p1, q1]\<rparr>
                        | Some (None, (s2, q1)) \<Rightarrow>
                            Some \<lparr>raised = None,
                                  sent = m1 @ forwarded decode (calls p1) @ m2 @
                                    forwarded decode (calls q1) @
                                    (if returncode q1 \<noteq> Some 0 then
                                       [(Stderr, ''[c++ kernel] Executable exited with code '' @
                                           str_returncode q1)]
                                     else []),
                                  processes = [p1, q1]\<rparr>)))))"

subsection \<open>What is delivered and what is still on its way\<close>

text \<open>
  The bytes a stream's callback has been given so far, and the bytes between the
  child and the callback: in the queue, in the hand of the drain thread, in the pipe.
\<close>

fun payload :: "sid \<Rightarrow> call \<Rightarrow> bytes" where
  "payload Stdout (Write_to_stdout bs) = bs"
| "payload Stdout (Write_to_stderr bs) = []"
| "payload Stderr (Write_to_stdout bs) = []"
| "payload Stderr (Write_to_stderr bs) = bs"

definition delivered :: "sid \<Rightarrow> world \<Rightarrow> bytes" where
  "delivered sid w = concat (map (payload sid) (calls w))"

fun inflight :: "thread \<Rightarrow> bytes" where
  "inflight (Putting line) = line"
| "inflight Reading = []"
| "inflight Closing = []"
| "inflight Finished = []"
| "inflight (Crashed e) = []"

definition undelivered :: "sid \<Rightarrow> world \<Rightarrow> bytes" where
  "undelivered sid w =
     concat (queue_of sid w) @ inflight (thread_of sid w) @ buffered (stream_of sid w)"

text \<open>The first \<open>k\<close> chunks of a queue taken away, as \<open>k\<close> calls of \<^verbatim>\<open>get_nowait\<close> do.\<close>

definition dropq :: "sid \<Rightarrow> nat \<Rightarrow> world \<Rightarrow> world" where
  "dropq sid k w = queue_upd sid (drop k (queue_of sid w)) w"

text \<open>
  The queue of a stream at the moment \<^verbatim>\<open>qsize\<close> reads it, and the world that the first
  \<open>k\<close> batches of the schedule make when the calling thread does nothing.
\<close>

definition snapshot :: "sid \<Rightarrow> config \<Rightarrow> bytes list" where
  "snapshot sid c = queue_of sid (snd (interleave c))"

definition background :: "nat \<Rightarrow> config \<Rightarrow> world" where
  "background k c = run_bg (concat (take k (fst c))) (snd c)"

text \<open>
  One stream's half of \<^verbatim>\<open>write_contents\<close>, and the single step it amounts to: the first
  \<open>n\<close> chunks leave the queue and their concatenation, unless empty, goes to the
  stream's callback.
\<close>

fun mk_call :: "sid \<Rightarrow> bytes \<Rightarrow> call" where
  "mk_call Stdout bs = Write_to_stdout bs"
| "mk_call Stderr bs = Write_to_stderr bs"

fun callback_of :: "sid \<Rightarrow> world \<Rightarrow> callback" where
  "callback_of Stdout w = write_to_stdout w"
| "callback_of Stderr w = write_to_stderr w"

definition flush_stream :: "sid \<Rightarrow> config \<Rightarrow> error option \<times> config" where
  "flush_stream sid c =
     (case read_all_from_queue sid c of
        (Inl e, c1) \<Rightarrow> (Some e, c1)
      | (Inr contents, c1) \<Rightarrow>
          (if contents \<noteq> [] then invoke (mk_call sid contents) c1 else (None, c1)))"

definition deliver :: "sid \<Rightarrow> nat \<Rightarrow> world \<Rightarrow> world" where
  "deliver sid n w =
     (if concat (take n (queue_of sid w)) \<noteq> []
      then (dropq sid n w)\<lparr>calls := calls w @ [mk_call sid (concat (take n (queue_of sid w)))]\<rparr>
      else dropq sid n w)"

text \<open>
  The queue of stderr at the moment \<^verbatim>\<open>write_contents\<close> reads its size: after the batches
  that the stdout half has used, and one more.
\<close>

definition stderr_snapshot :: "config \<Rightarrow> bytes list" where
  "stderr_snapshot c = queue_of Stderr (background (length (snapshot Stdout c) + 2) c)"

definition flushed :: "world \<Rightarrow> world" where
  "flushed w = w\<lparr>history := history w @ [Flushed]\<rparr>"

text \<open>The invariants of a stream: no empty chunk, and nothing left behind at end of stream.\<close>

definition chunks_nonempty :: "sid \<Rightarrow> world \<Rightarrow> bool" where
  "chunks_nonempty sid w \<longleftrightarrow>
     list_all (\<lambda>x. x \<noteq> []) (queue_of sid w) \<and> thread_of sid w \<noteq> Putting []"

definition at_eof :: "sid \<Rightarrow> world \<Rightarrow> bool" where
  "at_eof sid w \<longleftrightarrow> thread_of sid w = Closing \<or> thread_of sid w = Finished"

definition eof_sound :: "sid \<Rightarrow> world \<Rightarrow> bool" where
  "eof_sound sid w \<longleftrightarrow>
     (if at_eof sid w
      then buffered (stream_of sid w) = [] \<and> \<not> writer_open (stream_of sid w)
      else True)"

text \<open>The bytes a callback was called with.\<close>

fun argument :: "call \<Rightarrow> bytes" where
  "argument (Write_to_stdout bs) = bs"
| "argument (Write_to_stderr bs) = bs"

definition conserved :: "sid \<Rightarrow> world \<Rightarrow> bool" where
  "conserved sid w \<longleftrightarrow> delivered sid w @ undelivered sid w = written (stream_of sid w)"

text \<open>
  A stream whose drain thread has seen the end: compared with an earlier world, the
  pipe is empty and closed for writing, and neither the queue nor what was written
  has changed.
\<close>

definition drained :: "sid \<Rightarrow> world \<Rightarrow> world \<Rightarrow> bool" where
  "drained sid w0 w \<longleftrightarrow>
     at_eof sid w \<and> buffered (stream_of sid w) = [] \<and> \<not> writer_open (stream_of sid w) \<and>
     queue_of sid w = queue_of sid w0 \<and> written (stream_of sid w) = written (stream_of sid w0)"

text \<open>
  Bytes cut into pieces of at most \<open>n\<close> bytes, in order; and the drain thread of a stream
  taking \<open>k\<close> steps with nothing else happening.
\<close>

function chop :: "nat \<Rightarrow> bytes \<Rightarrow> bytes list" where
  "chop n bs = (if n = 0 \<or> bs = [] then [] else take n bs # chop n (drop n bs))"
  by pat_completeness auto
termination
  by (relation "measure (\<lambda>(n, bs). length bs)") auto

declare chop.simps [simp del]

definition drain_alone :: "sid \<Rightarrow> nat \<Rightarrow> world \<Rightarrow> world" where
  "drain_alone sid k w = run_bg (replicate k (Thread_step sid)) w"

definition readable :: "stream \<Rightarrow> bool" where
  "readable s \<longleftrightarrow> \<not> handle_closed s \<and> \<not> failing s"

text \<open>
  The world in which a stream's drain thread has returned, all else the same: what a
  thread that died of an exception is compared with.
\<close>

definition hush :: "sid \<Rightarrow> world \<Rightarrow> world" where
  "hush sid w = thread_upd sid Finished w"

text \<open>
  The usage pattern, read off the record of calls of one subprocess. \<open>waiting\<close>: any
  number of rounds of a \<^verbatim>\<open>poll\<close> that found the child running and a \<^verbatim>\<open>write_contents\<close>,
  then a \<^verbatim>\<open>poll\<close> that found it exited. \<open>completed\<close>: the same, followed by one more
  \<^verbatim>\<open>write_contents\<close>. \<open>interrupted\<close>: at least one round and nothing after it (the last
  \<^verbatim>\<open>write_contents\<close> raised). \<open>obeys\<close>: one of the last two.
\<close>

fun waiting :: "action list \<Rightarrow> bool" where
  "waiting [Polled (Some rc)] = True"
| "waiting (Polled None # Flushed # rest) = waiting rest"
| "waiting other = False"

fun completed :: "action list \<Rightarrow> bool" where
  "completed [Polled (Some rc), Flushed] = True"
| "completed (Polled None # Flushed # rest) = completed rest"
| "completed other = False"

fun interrupted :: "action list \<Rightarrow> bool" where
  "interrupted [Polled None, Flushed] = True"
| "interrupted (Polled None # Flushed # rest) = interrupted rest"
| "interrupted other = False"

definition obeys :: "action list \<Rightarrow> bool" where
  "obeys h \<longleftrightarrow> completed h \<or> interrupted h"

text \<open>Whether the child exits at some point of a schedule.\<close>

fun exits :: "bg_event \<Rightarrow> bool" where
  "exits (Child_exit code) = True"
| "exits (Child_write sid bs) = False"
| "exits (Child_close sid) = False"
| "exits (Io_fault sid) = False"
| "exits (Thread_step sid) = False"

definition child_exits :: "schedule \<Rightarrow> bool" where
  "child_exits sch = list_ex (\<lambda>b. list_ex exits b) sch"

text \<open>The child has exited, or will in what is left of the schedule.\<close>

definition pending :: "config \<Rightarrow> bool" where
  "pending c \<longleftrightarrow> child_status (snd c) \<noteq> None \<or> child_exits (fst c)"

text \<open>\<^verbatim>\<open>bytes.decode\<close> on bytes that are all ASCII.\<close>

definition ascii :: "bytes \<Rightarrow> error + string" where
  "ascii bs = Inr bs"

text \<open>A schedule in which the child writes no byte.\<close>

fun writes :: "bg_event \<Rightarrow> bool" where
  "writes (Child_write sid bs) = (bs \<noteq> [])"
| "writes (Child_close sid) = False"
| "writes (Child_exit code) = False"
| "writes (Io_fault sid) = False"
| "writes (Thread_step sid) = False"

definition silent :: "schedule \<Rightarrow> bool" where
  "silent sch = list_all (\<lambda>b. list_all (\<lambda>e. \<not> writes e) b) sch"

text \<open>
  The operations of the calling thread on the shared state, and a list of them performed
  in order, each as the class performs it; the first exception ends the list.
  \<open>flush_ops\<close> is one stream's half of \<^verbatim>\<open>write_contents\<close> when the queue holds the given
  chunks at the time its size is read: the size is read, each chunk is taken, and their
  concatenation, unless empty, goes to the stream's callback.
\<close>

datatype operation = Qsize sid | Get_nowait sid | Invoke call

fun perform :: "operation list \<Rightarrow> config \<Rightarrow> error option \<times> config" where
  "perform [] c = (None, c)"
| "perform (Qsize sid # ops) c = perform ops (snd (qsize sid c))"
| "perform (Get_nowait sid # ops) c =
     (case get_nowait sid c of
        (Inl e, c') \<Rightarrow> (Some e, c')
      | (Inr x, c') \<Rightarrow> perform ops c')"
| "perform (Invoke k # ops) c =
     (case invoke k c of
        (Some e, c') \<Rightarrow> (Some e, c')
      | (None, c') \<Rightarrow> perform ops c')"

definition flush_ops :: "sid \<Rightarrow> bytes list \<Rightarrow> operation list" where
  "flush_ops sid chunks =
     Qsize sid # replicate (length chunks) (Get_nowait sid) @
     (if concat chunks \<noteq> [] then [Invoke (mk_call sid (concat chunks))] else [])"

subsection \<open>A subprocess to run the examples on\<close>

definition quiet :: callback where
  "quiet bs = None"

definition accept_all :: platform where
  "accept_all = \<lparr>popen = (\<lambda>cmd. None), thread_start = (\<lambda>sid. None)\<rparr>"

text \<open>
  A platform on which no command can be run, one on which the thread of the given stream
  cannot be started, and a callback that raises (as \<^verbatim>\<open>bytes.decode\<close> does on bytes that
  are not UTF-8).
\<close>

definition no_such_file :: platform where
  "no_such_file = \<lparr>popen = (\<lambda>cmd. Some OSError), thread_start = (\<lambda>sid. None)\<rparr>"

definition out_of_threads :: "sid \<Rightarrow> platform" where
  "out_of_threads sid =
     \<lparr>popen = (\<lambda>cmd. None),
      thread_start = (\<lambda>t. if t = sid then Some RuntimeError else None)\<rparr>"

definition refusing :: callback where
  "refusing bs = Some UnicodeDecodeError"

definition started :: world where
  "started =
     \<lparr>args = [''./a.out''], write_to_stdout = quiet, write_to_stderr = quiet,
      stdout = fresh_stream, stderr = fresh_stream,
      stdout_queue = [], stderr_queue = [],
      stdout_thread = Reading, stderr_thread = Reading,
      child_status = None, returncode = None, calls = [], history = []\<rparr>"

section \<open>Basic facts\<close>

subsection \<open>Selectors and updates\<close>

lemma stream_of_upd [simp]:
  "stream_of sid (stream_upd sid' s w) = (if sid = sid' then s else stream_of sid w)"
  "stream_of sid (queue_upd sid' q w) = stream_of sid w"
  "stream_of sid (thread_upd sid' t w) = stream_of sid w"
  by (cases sid; cases sid'; simp)+

lemma queue_of_upd [simp]:
  "queue_of sid (queue_upd sid' q w) = (if sid = sid' then q else queue_of sid w)"
  "queue_of sid (stream_upd sid' s w) = queue_of sid w"
  "queue_of sid (thread_upd sid' t w) = queue_of sid w"
  by (cases sid; cases sid'; simp)+

lemma thread_of_upd [simp]:
  "thread_of sid (thread_upd sid' t w) = (if sid = sid' then t else thread_of sid w)"
  "thread_of sid (stream_upd sid' s w) = thread_of sid w"
  "thread_of sid (queue_upd sid' q w) = thread_of sid w"
  by (cases sid; cases sid'; simp)+

lemma calls_upd [simp]:
  "calls (stream_upd sid s w) = calls w"
  "calls (queue_upd sid q w) = calls w"
  "calls (thread_upd sid t w) = calls w"
  by (cases sid; simp)+

lemma history_upd [simp]:
  "history (stream_upd sid s w) = history w"
  "history (queue_upd sid q w) = history w"
  "history (thread_upd sid t w) = history w"
  by (cases sid; simp)+

lemma status_upd [simp]:
  "child_status (stream_upd sid s w) = child_status w"
  "child_status (queue_upd sid q w) = child_status w"
  "child_status (thread_upd sid t w) = child_status w"
  "returncode (stream_upd sid s w) = returncode w"
  "returncode (queue_upd sid q w) = returncode w"
  "returncode (thread_upd sid t w) = returncode w"
  by (cases sid; simp)+

lemma raw_callback_upd [simp]:
  "write_to_stdout (stream_upd sid s w) = write_to_stdout w"
  "write_to_stdout (queue_upd sid q w) = write_to_stdout w"
  "write_to_stdout (thread_upd sid t w) = write_to_stdout w"
  "write_to_stderr (stream_upd sid s w) = write_to_stderr w"
  "write_to_stderr (queue_upd sid q w) = write_to_stderr w"
  "write_to_stderr (thread_upd sid t w) = write_to_stderr w"
  by (cases sid; simp)+

lemma callback_upd [simp]:
  "callback_of sid' (stream_upd sid s w) = callback_of sid' w"
  "callback_of sid' (queue_upd sid q w) = callback_of sid' w"
  "callback_of sid' (thread_upd sid t w) = callback_of sid' w"
  by (cases sid; cases sid'; simp)+

lemma of_record_upd [simp]:
  "stream_of sid (w\<lparr>calls := cs\<rparr>) = stream_of sid w"
  "queue_of sid (w\<lparr>calls := cs\<rparr>) = queue_of sid w"
  "thread_of sid (w\<lparr>calls := cs\<rparr>) = thread_of sid w"
  "stream_of sid (w\<lparr>history := h\<rparr>) = stream_of sid w"
  "queue_of sid (w\<lparr>history := h\<rparr>) = queue_of sid w"
  "thread_of sid (w\<lparr>history := h\<rparr>) = thread_of sid w"
  "stream_of sid (w\<lparr>returncode := r\<rparr>) = stream_of sid w"
  "queue_of sid (w\<lparr>returncode := r\<rparr>) = queue_of sid w"
  "thread_of sid (w\<lparr>returncode := r\<rparr>) = thread_of sid w"
  by (cases sid; simp)+

lemma queue_of_dropq [simp]:
  "queue_of sid' (dropq sid k w) = (if sid' = sid then drop k (queue_of sid w) else queue_of sid' w)"
  by (simp add: dropq_def)

lemma dropq_keeps [simp]:
  "stream_of sid' (dropq sid k w) = stream_of sid' w"
  "thread_of sid' (dropq sid k w) = thread_of sid' w"
  "calls (dropq sid k w) = calls w"
  "history (dropq sid k w) = history w"
  "child_status (dropq sid k w) = child_status w"
  "returncode (dropq sid k w) = returncode w"
  "callback_of sid' (dropq sid k w) = callback_of sid' w"
  by (simp_all add: dropq_def)

lemma dropq_dropq: "dropq sid n (dropq sid k w) = dropq sid (k + n) w"
  by (cases sid) (simp_all add: dropq_def add.commute)

lemma dropq_0 [simp]: "dropq sid 0 w = w"
  by (cases sid) (simp_all add: dropq_def)


subsection \<open>Background actions\<close>

lemma run_bg_Nil [simp]: "run_bg [] w = w"
  by (simp add: run_bg_def)

lemma run_bg_Cons [simp]: "run_bg (e # es) w = run_bg es (bg_step e w)"
  by (simp add: run_bg_def)

lemma run_bg_append: "run_bg (es @ fs) w = run_bg fs (run_bg es w)"
  by (simp add: run_bg_def)

lemma run_bg_invariant:
  assumes "\<And>e w. P w \<Longrightarrow> P (bg_step e w)" and "P w"
  shows "P (run_bg es w)"
  using assms(2)
proof (induction es arbitrary: w)
  case Nil
  then show ?case by simp
next
  case (Cons e es)
  have "P (bg_step e w)" using Cons.prems by (rule assms(1))
  then have "P (run_bg es (bg_step e w))" by (rule Cons.IH)
  then show ?case by simp
qed

lemma bg_step_keeps [simp]:
  "calls (bg_step e w) = calls w"
  "history (bg_step e w) = history w"
  "returncode (bg_step e w) = returncode w"
  "write_to_stdout (bg_step e w) = write_to_stdout w"
  "write_to_stderr (bg_step e w) = write_to_stderr w"
  by (cases e; simp split: prod.splits)+

lemma bg_step_callback [simp]:
  "callback_of sid (bg_step e w) = callback_of sid w"
  by (cases sid) simp_all

lemma run_bg_keeps [simp]:
  "calls (run_bg es w) = calls w"
  "history (run_bg es w) = history w"
  "returncode (run_bg es w) = returncode w"
  "write_to_stdout (run_bg es w) = write_to_stdout w"
  "write_to_stderr (run_bg es w) = write_to_stderr w"
  "callback_of sid (run_bg es w) = callback_of sid w"
  by (induction es arbitrary: w) simp_all

lemma interleave_eq: "interleave (sch, w) = (drop 1 sch, run_bg (concat (take 1 sch)) w)"
  by (cases sch) simp_all

subsection \<open>The queue only grows at its end\<close>

lemma enqueue_output_append:
  "enqueue_output t s (q1 @ q2) =
     (case enqueue_output t s q2 of (t', s', q') \<Rightarrow> (t', s', q1 @ q'))"
  by (cases t) (auto split: prod.splits outcome.splits)

lemma enqueue_output_extends:
  "enqueue_output t s q = (t', s', q') \<Longrightarrow> prefix q q'"
  by (cases t) (auto split: prod.splits outcome.splits if_splits)

lemma bg_step_queue_prefix: "prefix (queue_of sid w) (queue_of sid (bg_step e w))"
proof (cases e)
  case (Thread_step sid')
  obtain t s q where eq:
    "enqueue_output (thread_of sid' w) (stream_of sid' w) (queue_of sid' w) = (t, s, q)"
    by (metis prod_cases3)
  from enqueue_output_extends[OF eq] Thread_step eq show ?thesis by auto
next
  case (Child_write sid' bs)
  then show ?thesis by simp
next
  case (Child_close sid')
  then show ?thesis by simp
next
  case (Child_exit c)
  then show ?thesis by (cases sid) simp_all
next
  case (Io_fault sid')
  then show ?thesis by simp
qed

lemma run_bg_queue_prefix: "prefix (queue_of sid w) (queue_of sid (run_bg es w))"
proof (induction es arbitrary: w)
  case Nil
  show ?case by simp
next
  case (Cons e es)
  have "prefix (queue_of sid w) (queue_of sid (bg_step e w))" by (rule bg_step_queue_prefix)
  also have "prefix \<dots> (queue_of sid (run_bg es (bg_step e w)))" by (rule Cons.IH)
  finally show ?case by simp
qed

lemma bg_step_dropq_thread_same:
  assumes "k \<le> length (queue_of sid w)"
  shows "bg_step (Thread_step sid) (dropq sid k w) = dropq sid k (bg_step (Thread_step sid) w)"
proof -
  let ?q = "queue_of sid w"
  obtain t s q where eq:
    "enqueue_output (thread_of sid w) (stream_of sid w) (drop k ?q) = (t, s, q)"
    by (metis prod_cases3)
  have "enqueue_output (thread_of sid w) (stream_of sid w) (take k ?q @ drop k ?q) =
      (t, s, take k ?q @ q)"
    by (simp only: enqueue_output_append eq prod.case)
  then have full: "enqueue_output (thread_of sid w) (stream_of sid w) ?q = (t, s, take k ?q @ q)"
    by simp
  have l: "bg_step (Thread_step sid) (dropq sid k w) =
      thread_upd sid t (stream_upd sid s (queue_upd sid q (dropq sid k w)))"
    by (simp add: eq)
  have r: "bg_step (Thread_step sid) w =
      thread_upd sid t (stream_upd sid s (queue_upd sid (take k ?q @ q) w))"
    by (simp add: full)
  show ?thesis
    unfolding l r using assms by (cases sid) (simp_all add: dropq_def)
qed

lemma bg_step_dropq_thread_other:
  assumes "sid' \<noteq> sid"
  shows "bg_step (Thread_step sid') (dropq sid k w) = dropq sid k (bg_step (Thread_step sid') w)"
proof -
  obtain t s q where eq:
    "enqueue_output (thread_of sid' w) (stream_of sid' w) (queue_of sid' w) = (t, s, q)"
    by (metis prod_cases3)
  have l: "bg_step (Thread_step sid') (dropq sid k w) =
      thread_upd sid' t (stream_upd sid' s (queue_upd sid' q (dropq sid k w)))"
    using assms by (simp add: eq)
  have r: "bg_step (Thread_step sid') w = thread_upd sid' t (stream_upd sid' s (queue_upd sid' q w))"
    by (simp add: eq)
  show ?thesis
    unfolding l r using assms by (cases sid; cases sid') (simp_all add: dropq_def)
qed

lemma bg_step_dropq:
  assumes "k \<le> length (queue_of sid w)"
  shows "bg_step e (dropq sid k w) = dropq sid k (bg_step e w)"
proof (cases e)
  case (Thread_step sid')
  show ?thesis
  proof (cases "sid' = sid")
    case True
    with assms show ?thesis unfolding Thread_step by (simp only: bg_step_dropq_thread_same)
  next
    case False
    then show ?thesis unfolding Thread_step by (rule bg_step_dropq_thread_other)
  qed
next
  case (Child_write sid' bs)
  show ?thesis unfolding Child_write by (cases sid; cases sid') (simp_all add: dropq_def)
next
  case (Child_close sid')
  show ?thesis unfolding Child_close by (cases sid; cases sid') (simp_all add: dropq_def)
next
  case (Child_exit c)
  show ?thesis unfolding Child_exit by (cases sid) (simp_all add: dropq_def)
next
  case (Io_fault sid')
  show ?thesis unfolding Io_fault by (cases sid; cases sid') (simp_all add: dropq_def)
qed

lemma run_bg_dropq:
  "k \<le> length (queue_of sid w) \<Longrightarrow> run_bg es (dropq sid k w) = dropq sid k (run_bg es w)"
proof (induction es arbitrary: w)
  case Nil
  show ?case by simp
next
  case (Cons e es)
  have "k \<le> length (queue_of sid (bg_step e w))"
    using Cons.prems bg_step_queue_prefix[of sid w e] by (auto dest: prefix_length_le)
  from Cons.IH[OF this] Cons.prems show ?case
    by (simp add: bg_step_dropq)
qed

subsection \<open>\<^verbatim>\<open>read_all_from_queue\<close> as one step\<close>

lemma read_loop_linear:
  "n \<le> length (queue_of sid w) \<Longrightarrow>
   read_loop sid n res (sch, w) =
     (Inr (res @ concat (take n (queue_of sid w))),
      (drop n sch, dropq sid n (run_bg (concat (take n sch)) w)))"
proof (induction n arbitrary: res sch w)
  case 0
  show ?case by simp
next
  case (Suc n)
  then obtain x xs where q: "queue_of sid w = x # xs"
    by (cases "queue_of sid w") auto
  obtain b sch' where i: "interleave (sch, w) = (sch', run_bg b w)"
    and ev: "concat (take (Suc n) sch) = b @ concat (take n sch')"
    and dr: "drop (Suc n) sch = drop n sch'"
    by (cases sch) auto
  let ?w1 = "run_bg b w"
  obtain ys where q1: "queue_of sid ?w1 = x # xs @ ys"
    using run_bg_queue_prefix[of sid w b] q by (auto simp: prefix_def)
  have d: "queue_upd sid (xs @ ys) ?w1 = dropq sid (Suc 0) ?w1"
    by (simp add: dropq_def q1)
  have one: "Suc 0 \<le> length (queue_of sid ?w1)"
    by (simp add: q1)
  have n: "n \<le> length (queue_of sid (dropq sid (Suc 0) ?w1))"
    using Suc.prems q by (simp add: q1)
  have tk: "take n (queue_of sid (dropq sid (Suc 0) ?w1)) = take n xs"
    using Suc.prems q by (simp add: q1)
  have g: "get_nowait sid (sch, w) = (Inr x, (sch', dropq sid (Suc 0) ?w1))"
    by (simp add: get_nowait_def i q1 d)
  have "read_loop sid (Suc n) res (sch, w) =
      read_loop sid n (res @ x) (sch', dropq sid (Suc 0) ?w1)"
    by (simp add: g)
  also have "\<dots> = (Inr ((res @ x) @ concat (take n (queue_of sid (dropq sid (Suc 0) ?w1)))),
      (drop n sch', dropq sid n (run_bg (concat (take n sch')) (dropq sid (Suc 0) ?w1))))"
    by (rule Suc.IH[OF n])
  also have "(res @ x) @ concat (take n (queue_of sid (dropq sid (Suc 0) ?w1))) =
      res @ concat (take (Suc n) (queue_of sid w))"
    by (simp only: tk) (simp add: q)
  also have "dropq sid n (run_bg (concat (take n sch')) (dropq sid (Suc 0) ?w1)) =
      dropq sid (Suc n) (run_bg (concat (take (Suc n) sch)) w)"
    by (simp add: run_bg_dropq[OF one] dropq_dropq ev run_bg_append)
  finally show ?case by (simp only: dr)
qed


lemma snapshot_eq: "snapshot sid (sch, w) = queue_of sid (background 1 (sch, w))"
  by (simp add: snapshot_def background_def interleave_eq)

lemma background_prefix:
  "k \<le> m \<Longrightarrow> prefix (queue_of sid (background k c)) (queue_of sid (background m c))"
proof -
  assume km: "k \<le> m"
  have "take m (fst c) = take k (fst c) @ take (m - k) (drop k (fst c))"
    using km by (metis le_add_diff_inverse take_add)
  then have "background m c =
      run_bg (concat (take (m - k) (drop k (fst c)))) (background k c)"
    by (simp add: background_def run_bg_append)
  then show ?thesis by (simp add: run_bg_queue_prefix)
qed

lemma read_all_from_queue_linear:
  "read_all_from_queue sid c =
     (Inr (concat (snapshot sid c)),
      (drop (Suc (length (snapshot sid c))) (fst c),
       dropq sid (length (snapshot sid c)) (background (Suc (length (snapshot sid c))) c)))"
proof -
  obtain sch w where c: "c = (sch, w)" by (cases c)
  let ?w1 = "run_bg (concat (take 1 sch)) w"
  let ?n = "length (queue_of sid ?w1)"
  have sn: "snapshot sid c = queue_of sid ?w1"
    by (simp add: c snapshot_def interleave_eq)
  have "read_all_from_queue sid c = read_loop sid ?n [] (drop 1 sch, ?w1)"
    by (simp add: c read_all_from_queue_def qsize_def interleave_eq)
  also have "\<dots> = (Inr ([] @ concat (take ?n (queue_of sid ?w1))),
      (drop ?n (drop 1 sch), dropq sid ?n (run_bg (concat (take ?n (drop 1 sch))) ?w1)))"
    by (rule read_loop_linear) simp
  also have "run_bg (concat (take ?n (drop 1 sch))) ?w1 = background (Suc ?n) c"
    by (cases sch) (simp_all add: c background_def run_bg_append)
  finally show ?thesis by (simp add: c snapshot_def interleave_eq)
qed

lemma snapshot_is_taken:
  "take (length (snapshot sid c)) (queue_of sid (background (Suc (length (snapshot sid c))) c)) =
     snapshot sid c"
proof -
  obtain sch w where c: "c = (sch, w)" by (cases c)
  have "prefix (queue_of sid (background 1 c))
      (queue_of sid (background (Suc (length (snapshot sid c))) c))"
    by (rule background_prefix) simp
  then show ?thesis
    by (auto simp: c snapshot_eq prefix_def)
qed

lemma invoke_mk_call:
  "invoke (mk_call sid bs) (sch, w) =
     (callback_of sid w bs, (sch, w\<lparr>calls := calls w @ [mk_call sid bs]\<rparr>))"
  by (cases sid) simp_all

lemma background_keeps [simp]:
  "calls (background k c) = calls (snd c)"
  "history (background k c) = history (snd c)"
  "returncode (background k c) = returncode (snd c)"
  "callback_of sid (background k c) = callback_of sid (snd c)"
  by (simp_all add: background_def)

lemma flush_stream_linear:
  "flush_stream sid c =
     ((if concat (snapshot sid c) \<noteq> [] then callback_of sid (snd c) (concat (snapshot sid c))
       else None),
      (drop (Suc (length (snapshot sid c))) (fst c),
       deliver sid (length (snapshot sid c)) (background (Suc (length (snapshot sid c))) c)))"
  by (simp add: flush_stream_def read_all_from_queue_linear invoke_mk_call deliver_def
      snapshot_is_taken)

lemma write_contents_flush_stream:
  "write_contents c =
     (case flush_stream Stdout (log_action Flushed c) of
        (Some e, c2) \<Rightarrow> (Some e, c2)
      | (None, c2) \<Rightarrow> flush_stream Stderr c2)"
  by (simp add: write_contents_def flush_stream_def split: prod.splits sum.splits option.splits)

subsection \<open>Invariants of every execution\<close>

lemma flush_stream_invariant:
  assumes bg: "\<And>e w. P w \<Longrightarrow> P (bg_step e w)"
    and dl: "\<And>sid n w. P w \<Longrightarrow> P (deliver sid n w)"
    and P: "P (snd c)"
  shows "P (snd (snd (flush_stream sid c)))"
proof -
  have "P (background (Suc (length (snapshot sid c))) c)"
    unfolding background_def using bg P by (rule run_bg_invariant)
  then show ?thesis by (simp add: flush_stream_linear dl)
qed

lemma write_contents_invariant:
  assumes bg: "\<And>e w. P w \<Longrightarrow> P (bg_step e w)"
    and dl: "\<And>sid n w. P w \<Longrightarrow> P (deliver sid n w)"
    and hs: "\<And>a w. P w \<Longrightarrow> P (w\<lparr>history := history w @ [a]\<rparr>)"
    and P: "P (snd c)"
  shows "P (snd (snd (write_contents c)))"
proof -
  have 0: "P (snd (log_action Flushed c))"
    using P by (cases c) (simp add: log_action_def hs)
  have 1: "P (snd (snd (flush_stream Stdout (log_action Flushed c))))"
    using bg dl 0 by (rule flush_stream_invariant)
  obtain r c2 where f: "flush_stream Stdout (log_action Flushed c) = (r, c2)"
    by (cases "flush_stream Stdout (log_action Flushed c)")
  have 2: "P (snd c2)" using 1 by (simp add: f)
  have 3: "P (snd (snd (flush_stream Stderr c2)))"
    using bg dl 2 by (rule flush_stream_invariant)
  show ?thesis
    using 2 3 by (cases r) (simp_all add: write_contents_flush_stream f)
qed

lemma poll_invariant:
  assumes bg: "\<And>e w. P w \<Longrightarrow> P (bg_step e w)"
    and hs: "\<And>a w. P w \<Longrightarrow> P (w\<lparr>history := history w @ [a]\<rparr>)"
    and rc: "\<And>w. P w \<Longrightarrow> P (w\<lparr>returncode := child_status w\<rparr>)"
    and P: "P (snd c)"
  shows "P (snd (snd (poll c)))"
proof -
  obtain sch w where c: "c = (sch, w)" by (cases c)
  let ?w1 = "run_bg (concat (take 1 sch)) w"
  have 1: "P ?w1" using bg P[unfolded c snd_conv] by (rule run_bg_invariant)
  then have 2: "P (?w1\<lparr>returncode := child_status ?w1\<rparr>)" by (rule rc)
  show ?thesis
    using hs[OF 1] hs[OF 2]
    by (simp add: c poll_def interleave_eq log_action_def Let_def)
qed

lemma caller_invariant:
  assumes bg: "\<And>e w. P w \<Longrightarrow> P (bg_step e w)"
    and dl: "\<And>sid n w. P w \<Longrightarrow> P (deliver sid n w)"
    and hs: "\<And>a w. P w \<Longrightarrow> P (w\<lparr>history := history w @ [a]\<rparr>)"
    and rc: "\<And>w. P w \<Longrightarrow> P (w\<lparr>returncode := child_status w\<rparr>)"
    and P: "P (snd c)"
  shows "P (snd (snd (caller rs c)))"
  using P
proof (induction rs arbitrary: c)
  case Nil
  then show ?case by simp
next
  case (Cons r rs)
  show ?case
  proof (cases r)
    case Flush
    have "P (snd (snd (write_contents c)))"
      using bg dl hs Cons.prems by (rule write_contents_invariant)
    then have "P (snd (snd (caller rs (snd (write_contents c)))))" by (rule Cons.IH)
    then show ?thesis by (auto simp: Flush split: prod.splits)
  next
    case Poll
    have "P (snd (snd (poll c)))"
      using bg hs rc Cons.prems by (rule poll_invariant)
    then have "P (snd (snd (caller rs (snd (poll c)))))" by (rule Cons.IH)
    then show ?thesis by (auto simp: Poll split: prod.splits)
  qed
qed

lemma deliver_keeps [simp]:
  "stream_of sid' (deliver sid n w) = stream_of sid' w"
  "thread_of sid' (deliver sid n w) = thread_of sid' w"
  "queue_of sid' (deliver sid n w) =
     (if sid' = sid then drop n (queue_of sid w) else queue_of sid' w)"
  "history (deliver sid n w) = history w"
  "child_status (deliver sid n w) = child_status w"
  "returncode (deliver sid n w) = returncode w"
  by (simp_all add: deliver_def)

lemma calls_deliver:
  "calls (deliver sid n w) =
     calls w @ (if concat (take n (queue_of sid w)) \<noteq> []
                then [mk_call sid (concat (take n (queue_of sid w)))] else [])"
  by (simp add: deliver_def)

lemma payload_mk_call [simp]:
  "payload sid' (mk_call sid bs) = (if sid' = sid then bs else [])"
  by (cases sid; cases sid') simp_all

lemma argument_mk_call [simp]: "argument (mk_call sid bs) = bs"
  by (cases sid) simp_all

lemma delivered_deliver:
  "delivered sid' (deliver sid n w) =
     delivered sid' w @ (if sid' = sid then concat (take n (queue_of sid w)) else [])"
  by (simp add: delivered_def calls_deliver)

lemma delivered_keeps [simp]:
  "delivered sid (bg_step e w) = delivered sid w"
  "delivered sid (run_bg es w) = delivered sid w"
  "delivered sid (w\<lparr>history := h\<rparr>) = delivered sid w"
  "delivered sid (w\<lparr>returncode := r\<rparr>) = delivered sid w"
  by (simp_all add: delivered_def)

lemma undelivered_keeps [simp]:
  "undelivered sid (w\<lparr>history := h\<rparr>) = undelivered sid w"
  "undelivered sid (w\<lparr>returncode := r\<rparr>) = undelivered sid w"
  "undelivered sid (w\<lparr>calls := cs\<rparr>) = undelivered sid w"
  by (simp_all add: undelivered_def)

subsection \<open>Nothing is lost and nothing is doubled\<close>

lemma enqueue_output_conserved:
  "enqueue_output t s q = (t', s', q') \<Longrightarrow>
   concat q' @ inflight t' @ buffered s' = concat q @ inflight t @ buffered s \<and>
   written s' = written s"
  by (cases t) (auto simp: stream_read_def stream_close_def split: if_splits)

lemma bg_step_conserved:
  assumes "d @ undelivered sid w = written (stream_of sid w)"
  shows "d @ undelivered sid (bg_step e w) = written (stream_of sid (bg_step e w))"
proof (cases e)
  case (Thread_step sid')
  obtain t s q where eq:
    "enqueue_output (thread_of sid' w) (stream_of sid' w) (queue_of sid' w) = (t, s, q)"
    by (metis prod_cases3)
  from enqueue_output_conserved[OF eq] assms Thread_step eq show ?thesis
    by (auto simp: undelivered_def)
next
  case (Child_write sid' bs)
  with assms show ?thesis by (auto simp: undelivered_def stream_write_def)
next
  case (Child_close sid')
  with assms show ?thesis by (auto simp: undelivered_def)
next
  case (Child_exit c)
  with assms show ?thesis by (cases sid) (auto simp: undelivered_def)
next
  case (Io_fault sid')
  with assms show ?thesis by (auto simp: undelivered_def)
qed

lemma conserved_bg_step: "conserved sid w \<Longrightarrow> conserved sid (bg_step e w)"
  unfolding conserved_def by (simp add: bg_step_conserved)

lemma undelivered_deliver:
  "concat (take n (queue_of sid w)) @ undelivered sid (deliver sid n w) = undelivered sid w"
proof -
  have "concat (take n (queue_of sid w)) @ concat (drop n (queue_of sid w)) =
      concat (queue_of sid w)"
    by (simp flip: concat_append)
  then show ?thesis by (simp add: undelivered_def)
qed

lemma undelivered_deliver_other:
  "sid' \<noteq> sid \<Longrightarrow> undelivered sid' (deliver sid n w) = undelivered sid' w"
  by (simp add: undelivered_def)

lemma conserved_deliver: "conserved sid' w \<Longrightarrow> conserved sid' (deliver sid n w)"
proof (cases "sid' = sid")
  case True
  assume "conserved sid' w"
  then show ?thesis
    unfolding conserved_def True
    by (simp add: delivered_deliver undelivered_deliver)
next
  case False
  assume "conserved sid' w"
  with False show ?thesis
    unfolding conserved_def
    by (simp add: delivered_deliver undelivered_deliver_other)
qed

lemma conserved_caller:
  "conserved sid (snd c) \<Longrightarrow> conserved sid (snd (snd (caller rs c)))"
proof (rule caller_invariant[where P = "conserved sid"])
  show "\<And>e w. conserved sid w \<Longrightarrow> conserved sid (bg_step e w)" by (rule conserved_bg_step)
  show "\<And>sida n w. conserved sid w \<Longrightarrow> conserved sid (deliver sida n w)"
    by (rule conserved_deliver)
  show "\<And>a w. conserved sid w \<Longrightarrow> conserved sid (w\<lparr>history := history w @ [a]\<rparr>)"
    by (simp add: conserved_def)
  show "\<And>w. conserved sid w \<Longrightarrow> conserved sid (w\<lparr>returncode := child_status w\<rparr>)"
    by (simp add: conserved_def)
qed

subsection \<open>No empty chunk\<close>

lemma enqueue_output_nonempty:
  "enqueue_output t s q = (t', s', q') \<Longrightarrow> list_all (\<lambda>x. x \<noteq> []) q \<Longrightarrow> t \<noteq> Putting [] \<Longrightarrow>
   list_all (\<lambda>x. x \<noteq> []) q' \<and> t' \<noteq> Putting []"
  by (cases t) (auto split: prod.splits outcome.splits if_splits)

lemma chunks_nonempty_bg_step:
  assumes "chunks_nonempty sid w"
  shows "chunks_nonempty sid (bg_step e w)"
proof (cases e)
  case (Thread_step sid')
  obtain t s q where eq:
    "enqueue_output (thread_of sid' w) (stream_of sid' w) (queue_of sid' w) = (t, s, q)"
    by (metis prod_cases3)
  show ?thesis
  proof (cases "sid' = sid")
    case True
    note eq' = eq[unfolded True]
    from enqueue_output_nonempty[OF eq'] assms show ?thesis
      by (simp add: chunks_nonempty_def Thread_step eq' True)
  next
    case False
    with assms show ?thesis
      by (simp add: chunks_nonempty_def Thread_step eq)
  qed
next
  case (Child_write sid' bs)
  with assms show ?thesis by (simp add: chunks_nonempty_def)
next
  case (Child_close sid')
  with assms show ?thesis by (simp add: chunks_nonempty_def)
next
  case (Child_exit c)
  with assms show ?thesis by (cases sid) (simp_all add: chunks_nonempty_def)
next
  case (Io_fault sid')
  with assms show ?thesis by (simp add: chunks_nonempty_def)
qed

lemma list_all_drop: "list_all P xs \<Longrightarrow> list_all P (drop n xs)"
  by (auto simp: list_all_iff dest: in_set_dropD)

lemma chunks_nonempty_deliver:
  "chunks_nonempty sid' w \<Longrightarrow> chunks_nonempty sid' (deliver sid n w)"
  by (auto simp: chunks_nonempty_def list_all_drop)

lemma chunks_nonempty_caller:
  "chunks_nonempty sid (snd c) \<Longrightarrow> chunks_nonempty sid (snd (snd (caller rs c)))"
proof (rule caller_invariant[where P = "chunks_nonempty sid"])
  show "\<And>e w. chunks_nonempty sid w \<Longrightarrow> chunks_nonempty sid (bg_step e w)"
    by (rule chunks_nonempty_bg_step)
  show "\<And>sida n w. chunks_nonempty sid w \<Longrightarrow> chunks_nonempty sid (deliver sida n w)"
    by (rule chunks_nonempty_deliver)
  show "\<And>a w. chunks_nonempty sid w \<Longrightarrow> chunks_nonempty sid (w\<lparr>history := history w @ [a]\<rparr>)"
    by (simp add: chunks_nonempty_def)
  show "\<And>w. chunks_nonempty sid w \<Longrightarrow> chunks_nonempty sid (w\<lparr>returncode := child_status w\<rparr>)"
    by (simp add: chunks_nonempty_def)
qed

lemma concat_nonempty_chunks:
  "list_all (\<lambda>x. x \<noteq> []) q \<Longrightarrow> concat q = [] \<longleftrightarrow> q = []"
  by (cases q) simp_all

subsection \<open>End of stream\<close>

lemma enqueue_output_eof:
  assumes "enqueue_output t s q = (t', s', q')"
    and "t = Closing \<or> t = Finished \<Longrightarrow> buffered s = [] \<and> \<not> writer_open s"
    and "t' = Closing \<or> t' = Finished"
  shows "buffered s' = [] \<and> \<not> writer_open s'"
  using assms
  by (cases t) (auto simp: stream_read_def stream_close_def chunk_size_def split: if_splits)

lemma eof_sound_bg_step:
  assumes "eof_sound sid w"
  shows "eof_sound sid (bg_step e w)"
proof (cases e)
  case (Thread_step sid')
  obtain t s q where eq:
    "enqueue_output (thread_of sid' w) (stream_of sid' w) (queue_of sid' w) = (t, s, q)"
    by (metis prod_cases3)
  show ?thesis
  proof (cases "sid' = sid")
    case True
    note eq' = eq[unfolded True]
    from enqueue_output_eof[OF eq'] assms show ?thesis
      by (auto simp: eof_sound_def at_eof_def Thread_step eq' True)
  next
    case False
    with assms show ?thesis
      by (simp add: eof_sound_def at_eof_def Thread_step eq)
  qed
next
  case (Child_write sid' bs)
  with assms show ?thesis by (auto simp: eof_sound_def at_eof_def stream_write_def)
next
  case (Child_close sid')
  with assms show ?thesis by (auto simp: eof_sound_def at_eof_def)
next
  case (Child_exit c)
  with assms show ?thesis by (cases sid) (auto simp: eof_sound_def at_eof_def)
next
  case (Io_fault sid')
  with assms show ?thesis by (auto simp: eof_sound_def at_eof_def)
qed

lemma eof_sound_caller:
  "eof_sound sid (snd c) \<Longrightarrow> eof_sound sid (snd (snd (caller rs c)))"
proof (rule caller_invariant[where P = "eof_sound sid"])
  show "\<And>e w. eof_sound sid w \<Longrightarrow> eof_sound sid (bg_step e w)"
    by (rule eof_sound_bg_step)
  show "\<And>sida n w. eof_sound sid w \<Longrightarrow> eof_sound sid (deliver sida n w)"
    by (simp add: eof_sound_def at_eof_def)
  show "\<And>a w. eof_sound sid w \<Longrightarrow> eof_sound sid (w\<lparr>history := history w @ [a]\<rparr>)"
    by (simp add: eof_sound_def at_eof_def)
  show "\<And>w. eof_sound sid w \<Longrightarrow> eof_sound sid (w\<lparr>returncode := child_status w\<rparr>)"
    by (simp add: eof_sound_def at_eof_def)
qed

subsection \<open>A fresh subprocess\<close>

lemma init_world:
  assumes "RealTimeSubprocess_init host cmd out_cb err_cb = Inr w"
  shows "calls w = []" "history w = []" "queue_of sid w = []" "thread_of sid w = Reading"
    "stream_of sid w = fresh_stream" "returncode w = None" "child_status w = None"
    "write_to_stdout w = out_cb" "write_to_stderr w = err_cb" "popen host cmd = None"
    "thread_start host Stdout = None" "thread_start host Stderr = None"
  using assms
  by (cases sid; auto simp: RealTimeSubprocess_init_def Let_def split: option.splits)+

lemma init_invariants:
  assumes "RealTimeSubprocess_init host cmd out_cb err_cb = Inr w"
  shows "conserved sid w" "chunks_nonempty sid w" "eof_sound sid w"
  using init_world[OF assms]
  by (simp_all add: conserved_def delivered_def undelivered_def fresh_stream_def
      chunks_nonempty_def eof_sound_def at_eof_def)

lemma started_init:
  "RealTimeSubprocess_init accept_all [''./a.out''] quiet quiet = Inr started"
  by (simp add: RealTimeSubprocess_init_def accept_all_def started_def)

lemma calls_poll [simp]: "calls (snd (snd (poll c))) = calls (snd c)"
  by (cases c) (simp add: poll_def interleave_eq log_action_def Let_def)

lemma calls_interleave [simp]: "calls (snd (interleave c)) = calls (snd c)"
  by (cases c) (simp add: interleave_eq)

lemma calls_caller_no_flush:
  "Flush \<notin> set rs \<Longrightarrow> calls (snd (snd (caller rs c))) = calls (snd c)"
proof (induction rs arbitrary: c)
  case Nil
  show ?case by simp
next
  case (Cons r rs)
  then have r: "r = Poll" and rs: "Flush \<notin> set rs"
    by (cases r; simp)+
  have "calls (snd (snd (caller rs (snd (poll c))))) = calls (snd (snd (poll c)))"
    using rs by (rule Cons.IH)
  then show ?case by (auto simp: r split: prod.splits)
qed

subsection \<open>\<^verbatim>\<open>write_contents\<close> as two steps\<close>

lemma upd_calls:
  "stream_upd sid s (w\<lparr>calls := cs\<rparr>) = (stream_upd sid s w)\<lparr>calls := cs\<rparr>"
  "queue_upd sid q (w\<lparr>calls := cs\<rparr>) = (queue_upd sid q w)\<lparr>calls := cs\<rparr>"
  "thread_upd sid t (w\<lparr>calls := cs\<rparr>) = (thread_upd sid t w)\<lparr>calls := cs\<rparr>"
  by (cases sid; simp)+

lemma upd_history:
  "stream_upd sid s (w\<lparr>history := h\<rparr>) = (stream_upd sid s w)\<lparr>history := h\<rparr>"
  "queue_upd sid q (w\<lparr>history := h\<rparr>) = (queue_upd sid q w)\<lparr>history := h\<rparr>"
  "thread_upd sid t (w\<lparr>history := h\<rparr>) = (thread_upd sid t w)\<lparr>history := h\<rparr>"
  by (cases sid; simp)+

lemma bg_step_calls_upd: "bg_step e (w\<lparr>calls := cs\<rparr>) = (bg_step e w)\<lparr>calls := cs\<rparr>"
  by (cases e) (simp_all add: upd_calls split: prod.splits)

lemma bg_step_history_upd: "bg_step e (w\<lparr>history := h\<rparr>) = (bg_step e w)\<lparr>history := h\<rparr>"
  by (cases e) (simp_all add: upd_history split: prod.splits)

lemma run_bg_calls_upd: "run_bg es (w\<lparr>calls := cs\<rparr>) = (run_bg es w)\<lparr>calls := cs\<rparr>"
  by (induction es arbitrary: w) (simp_all add: bg_step_calls_upd)

lemma run_bg_history_upd: "run_bg es (w\<lparr>history := h\<rparr>) = (run_bg es w)\<lparr>history := h\<rparr>"
  by (induction es arbitrary: w) (simp_all add: bg_step_history_upd)

lemma run_bg_deliver:
  assumes "n \<le> length (queue_of sid w)"
  shows "run_bg es (deliver sid n w) = deliver sid n (run_bg es w)"
proof -
  obtain ys where q: "queue_of sid (run_bg es w) = queue_of sid w @ ys"
    using run_bg_queue_prefix[of sid w es] by (auto simp: prefix_def)
  have tk: "take n (queue_of sid (run_bg es w)) = take n (queue_of sid w)"
    using assms by (simp add: q)
  show ?thesis
    using assms by (simp add: deliver_def tk run_bg_calls_upd run_bg_dropq)
qed

lemma background_0 [simp]: "background 0 c = snd c"
  by (simp add: background_def)

lemma background_add:
  "background (m + k) (sch, w) = run_bg (concat (take k (drop m sch))) (background m (sch, w))"
proof -
  have "take (m + k) sch = take m sch @ take k (drop m sch)"
    by (simp add: take_add)
  then show ?thesis by (simp add: background_def run_bg_append)
qed

lemma background_later:
  "background k (drop m sch, background m (sch, w)) = background (m + k) (sch, w)"
  by (simp add: background_add) (simp add: background_def)

lemma background_deliver:
  assumes "n \<le> length (queue_of sid (background m (sch, w)))"
  shows "background k (drop m sch, deliver sid n (background m (sch, w))) =
     deliver sid n (background (m + k) (sch, w))"
proof -
  have "background k (drop m sch, deliver sid n (background m (sch, w))) =
      run_bg (concat (take k (drop m sch))) (deliver sid n (background m (sch, w)))"
    by (simp add: background_def)
  also have "\<dots> = deliver sid n (run_bg (concat (take k (drop m sch))) (background m (sch, w)))"
    using assms by (rule run_bg_deliver)
  finally show ?thesis by (simp add: background_add)
qed

lemma background_flushed:
  "background k (sch, flushed w) = flushed (background k (sch, w))"
  by (simp add: background_def flushed_def run_bg_history_upd)

lemma snapshot_background: "snapshot sid c = queue_of sid (background 1 c)"
  by (cases c) (simp add: snapshot_eq)

lemma snapshot_length_le:
  "length (snapshot sid c) \<le> length (queue_of sid (background (Suc (length (snapshot sid c))) c))"
proof -
  have "length (take (length (snapshot sid c))
      (queue_of sid (background (Suc (length (snapshot sid c))) c))) = length (snapshot sid c)"
    by (simp only: snapshot_is_taken)
  then show ?thesis by simp
qed

lemma flushed_keeps [simp]:
  "queue_of sid (flushed w) = queue_of sid w"
  "stream_of sid (flushed w) = stream_of sid w"
  "thread_of sid (flushed w) = thread_of sid w"
  "calls (flushed w) = calls w"
  "returncode (flushed w) = returncode w"
  "child_status (flushed w) = child_status w"
  "callback_of sid (flushed w) = callback_of sid w"
  "history (flushed w) = history w @ [Flushed]"
  by (cases sid; simp add: flushed_def)+

lemma snapshot_flushed [simp]: "snapshot sid (sch, flushed w) = snapshot sid (sch, w)"
  by (simp add: snapshot_background background_flushed)

lemma log_action_Flushed: "log_action Flushed (sch, w) = (sch, flushed w)"
  by (simp add: log_action_def flushed_def)

lemma deliver_flushed: "deliver sid n (flushed w) = flushed (deliver sid n w)"
  by (cases sid) (simp_all add: deliver_def flushed_def dropq_def)

lemma raw_callback_keeps [simp]:
  "write_to_stdout (dropq sid k w) = write_to_stdout w"
  "write_to_stderr (dropq sid k w) = write_to_stderr w"
  "write_to_stdout (deliver sid k w) = write_to_stdout w"
  "write_to_stderr (deliver sid k w) = write_to_stderr w"
  "write_to_stdout (flushed w) = write_to_stdout w"
  "write_to_stderr (flushed w) = write_to_stderr w"
  "write_to_stdout (background k c) = write_to_stdout (snd c)"
  "write_to_stderr (background k c) = write_to_stderr (snd c)"
  by (simp_all add: dropq_def deliver_def flushed_def background_def)

lemma callback_of_deliver [simp]: "callback_of sid' (deliver sid k w) = callback_of sid' w"
  by (cases sid') simp_all

lemma flush_stderr_after_stdout:
  fixes sch w
  defines "n1 \<equiv> length (snapshot Stdout (sch, w))"
  defines "n2 \<equiv> length (stderr_snapshot (sch, w))"
  shows "flush_stream Stderr
      (drop (Suc n1) sch, deliver Stdout n1 (background (Suc n1) (sch, flushed w))) =
     ((if concat (stderr_snapshot (sch, w)) \<noteq> []
       then write_to_stderr w (concat (stderr_snapshot (sch, w))) else None),
      (drop (n1 + n2 + 2) sch,
       flushed (deliver Stderr n2 (deliver Stdout n1 (background (n1 + n2 + 2) (sch, w))))))"
proof -
  let ?c1 = "(sch, flushed w)"
  let ?c2 = "(drop (Suc n1) sch, deliver Stdout n1 (background (Suc n1) ?c1))"
  have le: "n1 \<le> length (queue_of Stdout (background (Suc n1) ?c1))"
    using snapshot_length_le[of Stdout "(sch, w)"]
    by (simp add: n1_def background_flushed)
  have bk: "\<And>k. background k ?c2 = deliver Stdout n1 (background (Suc n1 + k) ?c1)"
    using le by (rule background_deliver)
  have "snapshot Stderr ?c2 = queue_of Stderr (background 1 ?c2)"
    by (rule snapshot_background)
  also have "\<dots> = queue_of Stderr (deliver Stdout n1 (background (Suc n1 + 1) ?c1))"
    by (simp only: bk)
  also have "\<dots> = queue_of Stderr (background (Suc n1 + 1) ?c1)"
    by (simp only: deliver_keeps) simp
  also have "\<dots> = stderr_snapshot (sch, w)"
    by (simp add: stderr_snapshot_def background_flushed n1_def)
  finally have sn: "snapshot Stderr ?c2 = stderr_snapshot (sch, w)" .
  have len: "length (snapshot Stderr ?c2) = n2"
    by (simp add: sn n2_def)
  have "background (Suc n2) ?c2 = deliver Stdout n1 (background (Suc n1 + Suc n2) ?c1)"
    by (rule bk)
  also have "Suc n1 + Suc n2 = n1 + n2 + 2" by simp
  finally have "background (Suc n2) ?c2 =
      deliver Stdout n1 (flushed (background (n1 + n2 + 2) (sch, w)))"
    by (simp only: background_flushed)
  then have w2: "deliver Stderr n2 (background (Suc n2) ?c2) =
      flushed (deliver Stderr n2 (deliver Stdout n1 (background (n1 + n2 + 2) (sch, w))))"
    by (simp only: deliver_flushed)
  have cb: "callback_of Stderr (snd ?c2) = write_to_stderr w"
    by simp
  have dr: "drop (Suc n2) (fst ?c2) = drop (n1 + n2 + 2) sch"
    by (simp add: add.commute)
  show ?thesis
    unfolding flush_stream_linear[of Stderr ?c2] sn cb len[unfolded sn] w2 dr
    by (simp add: n2_def)
qed

lemma flush_stdout_first:
  "flush_stream Stdout (log_action Flushed (sch, w)) =
     ((if concat (snapshot Stdout (sch, w)) \<noteq> []
       then write_to_stdout w (concat (snapshot Stdout (sch, w))) else None),
      (drop (Suc (length (snapshot Stdout (sch, w)))) sch,
       deliver Stdout (length (snapshot Stdout (sch, w)))
         (background (Suc (length (snapshot Stdout (sch, w)))) (sch, flushed w))))"
  by (simp add: log_action_Flushed flush_stream_linear)

lemma write_contents_raised:
  assumes "concat (snapshot Stdout (sch, w)) \<noteq> []"
    and "write_to_stdout w (concat (snapshot Stdout (sch, w))) = Some e"
  shows "write_contents (sch, w) =
     (Some e,
      (drop (Suc (length (snapshot Stdout (sch, w)))) sch,
       flushed (deliver Stdout (length (snapshot Stdout (sch, w)))
         (background (Suc (length (snapshot Stdout (sch, w)))) (sch, w)))))"
  using assms
  by (simp add: write_contents_flush_stream flush_stdout_first background_flushed deliver_flushed)

lemma write_contents_returned:
  assumes "concat (snapshot Stdout (sch, w)) = [] \<or>
      write_to_stdout w (concat (snapshot Stdout (sch, w))) = None"
  shows "write_contents (sch, w) =
     ((if concat (stderr_snapshot (sch, w)) \<noteq> []
       then write_to_stderr w (concat (stderr_snapshot (sch, w))) else None),
      (drop (length (snapshot Stdout (sch, w)) + length (stderr_snapshot (sch, w)) + 2) sch,
       flushed (deliver Stderr (length (stderr_snapshot (sch, w)))
         (deliver Stdout (length (snapshot Stdout (sch, w)))
           (background (length (snapshot Stdout (sch, w)) + length (stderr_snapshot (sch, w)) + 2)
             (sch, w))))))"
proof -
  have "write_contents (sch, w) =
      flush_stream Stderr
        (drop (Suc (length (snapshot Stdout (sch, w)))) sch,
         deliver Stdout (length (snapshot Stdout (sch, w)))
           (background (Suc (length (snapshot Stdout (sch, w)))) (sch, flushed w)))"
    using assms
    by (auto simp: write_contents_flush_stream flush_stdout_first)
  then show ?thesis by (simp only: flush_stderr_after_stdout)
qed

subsection \<open>Invariants under a restricted schedule\<close>

lemma run_bg_invariant_on:
  assumes "\<And>e w. A e \<Longrightarrow> P w \<Longrightarrow> P (bg_step e w)" and "P w" and "\<forall>e\<in>set es. A e"
  shows "P (run_bg es w)"
  using assms(2,3)
proof (induction es arbitrary: w)
  case Nil
  then show ?case by simp
next
  case (Cons e es)
  have "P (bg_step e w)" using Cons.prems by (simp add: assms(1))
  then have "P (run_bg es (bg_step e w))" using Cons.prems by (simp add: Cons.IH)
  then show ?case by simp
qed

lemma background_invariant_on:
  assumes bg: "\<And>e w. A e \<Longrightarrow> P w \<Longrightarrow> P (bg_step e w)"
    and P: "P (snd c)" and A: "\<forall>b\<in>set (fst c). \<forall>e\<in>set b. A e"
  shows "P (background k c)"
proof -
  have "\<forall>e\<in>set (concat (take k (fst c))). A e"
    using A by (auto dest: in_set_takeD)
  with bg P show ?thesis unfolding background_def by (rule run_bg_invariant_on)
qed

lemma flush_stream_invariant_on:
  assumes bg: "\<And>e w. A e \<Longrightarrow> P w \<Longrightarrow> P (bg_step e w)"
    and dl: "\<And>sid n w. P w \<Longrightarrow> P (deliver sid n w)"
    and P: "P (snd c)" and A: "\<forall>b\<in>set (fst c). \<forall>e\<in>set b. A e"
  shows "P (snd (snd (flush_stream sid c))) \<and>
     (\<forall>b\<in>set (fst (snd (flush_stream sid c))). \<forall>e\<in>set b. A e)"
proof -
  have "P (background (Suc (length (snapshot sid c))) c)"
    using bg P A by (rule background_invariant_on)
  moreover have "\<forall>b\<in>set (drop (Suc (length (snapshot sid c))) (fst c)). \<forall>e\<in>set b. A e"
    using A by (auto dest: in_set_dropD)
  ultimately show ?thesis by (simp add: flush_stream_linear dl)
qed

lemma write_contents_invariant_on:
  assumes bg: "\<And>e w. A e \<Longrightarrow> P w \<Longrightarrow> P (bg_step e w)"
    and dl: "\<And>sid n w. P w \<Longrightarrow> P (deliver sid n w)"
    and hs: "\<And>a w. P w \<Longrightarrow> P (w\<lparr>history := history w @ [a]\<rparr>)"
    and P: "P (snd c)" and A: "\<forall>b\<in>set (fst c). \<forall>e\<in>set b. A e"
  shows "P (snd (snd (write_contents c))) \<and>
     (\<forall>b\<in>set (fst (snd (write_contents c))). \<forall>e\<in>set b. A e)"
proof -
  have 0: "P (snd (log_action Flushed c))"
    using P by (cases c) (simp add: log_action_def hs)
  have A0: "\<forall>b\<in>set (fst (log_action Flushed c)). \<forall>e\<in>set b. A e"
    using A by (cases c) (simp add: log_action_def)
  note 1 = flush_stream_invariant_on[of A P, OF bg dl 0 A0, of Stdout]
  obtain r c2 where f: "flush_stream Stdout (log_action Flushed c) = (r, c2)"
    by (cases "flush_stream Stdout (log_action Flushed c)")
  have 2: "P (snd c2)" and A2: "\<forall>b\<in>set (fst c2). \<forall>e\<in>set b. A e"
    using 1 by (simp_all add: f)
  note 3 = flush_stream_invariant_on[of A P, OF bg dl 2 A2, of Stderr]
  show ?thesis
    using 2 A2 3 by (cases r) (simp_all add: write_contents_flush_stream f)
qed

lemma poll_invariant_on:
  assumes bg: "\<And>e w. A e \<Longrightarrow> P w \<Longrightarrow> P (bg_step e w)"
    and hs: "\<And>a w. P w \<Longrightarrow> P (w\<lparr>history := history w @ [a]\<rparr>)"
    and rc: "\<And>w. P w \<Longrightarrow> P (w\<lparr>returncode := child_status w\<rparr>)"
    and P: "P (snd c)" and A: "\<forall>b\<in>set (fst c). \<forall>e\<in>set b. A e"
  shows "P (snd (snd (poll c))) \<and> (\<forall>b\<in>set (fst (snd (poll c))). \<forall>e\<in>set b. A e)"
proof -
  obtain sch w where c: "c = (sch, w)" by (cases c)
  let ?w1 = "run_bg (concat (take 1 sch)) w"
  have "P (background 1 c)" using bg P A by (rule background_invariant_on)
  then have 1: "P ?w1" by (simp add: c background_def)
  then have 2: "P (?w1\<lparr>returncode := child_status ?w1\<rparr>)" by (rule rc)
  have "\<forall>b\<in>set (drop 1 sch). \<forall>e\<in>set b. A e"
    using A by (auto simp: c dest: in_set_dropD)
  then show ?thesis
    using hs[OF 1] hs[OF 2]
    by (simp add: c poll_def interleave_eq log_action_def Let_def)
qed

lemma caller_invariant_on:
  assumes bg: "\<And>e w. A e \<Longrightarrow> P w \<Longrightarrow> P (bg_step e w)"
    and dl: "\<And>sid n w. P w \<Longrightarrow> P (deliver sid n w)"
    and hs: "\<And>a w. P w \<Longrightarrow> P (w\<lparr>history := history w @ [a]\<rparr>)"
    and rc: "\<And>w. P w \<Longrightarrow> P (w\<lparr>returncode := child_status w\<rparr>)"
    and P: "P (snd c)" and A: "\<forall>b\<in>set (fst c). \<forall>e\<in>set b. A e"
  shows "P (snd (snd (caller rs c)))"
  using P A
proof (induction rs arbitrary: c)
  case Nil
  then show ?case by simp
next
  case (Cons r rs)
  show ?case
  proof (cases r)
    case Flush
    note 1 = write_contents_invariant_on[of A P, OF bg dl hs Cons.prems]
    have "P (snd (snd (caller rs (snd (write_contents c)))))"
      using 1 by (simp add: Cons.IH)
    then show ?thesis by (auto simp: Flush split: prod.splits)
  next
    case Poll
    note 1 = poll_invariant_on[of A P, OF bg hs rc Cons.prems]
    have "P (snd (snd (caller rs (snd (poll c)))))"
      using 1 by (simp add: Cons.IH)
    then show ?thesis by (auto simp: Poll split: prod.splits)
  qed
qed

subsection \<open>Callbacks get no empty bytes\<close>

lemma calls_nonempty_caller:
  "list_all (\<lambda>k. argument k \<noteq> []) (calls (snd c)) \<Longrightarrow>
   list_all (\<lambda>k. argument k \<noteq> []) (calls (snd (snd (caller rs c))))"
proof (rule caller_invariant[where P = "\<lambda>w. list_all (\<lambda>k. argument k \<noteq> []) (calls w)"])
  show "\<And>sid n w. list_all (\<lambda>k. argument k \<noteq> []) (calls w) \<Longrightarrow>
      list_all (\<lambda>k. argument k \<noteq> []) (calls (deliver sid n w))"
    by (simp add: calls_deliver)
qed simp_all

lemma no_bytes_no_calls:
  assumes "delivered Stdout w = []" and "delivered Stderr w = []"
    and "list_all (\<lambda>k. argument k \<noteq> []) (calls w)"
  shows "calls w = []"
proof (cases "calls w")
  case Nil
  then show ?thesis .
next
  case (Cons k ks)
  with assms show ?thesis
    by (cases k) (simp_all add: delivered_def)
qed

lemma written_bg_step_silent:
  "\<not> writes e \<Longrightarrow> written (stream_of sid (bg_step e w)) = written (stream_of sid w)"
proof (cases e)
  case (Thread_step sid')
  obtain t s q where eq:
    "enqueue_output (thread_of sid' w) (stream_of sid' w) (queue_of sid' w) = (t, s, q)"
    by (metis prod_cases3)
  from enqueue_output_conserved[OF eq] show ?thesis
    by (simp add: Thread_step eq)
next
  case (Child_write sid' bs)
  assume "\<not> writes e"
  with Child_write show ?thesis by (simp add: stream_write_def)
next
  case (Child_close sid')
  then show ?thesis by simp
next
  case (Child_exit c)
  then show ?thesis by (cases sid) simp_all
next
  case (Io_fault sid')
  then show ?thesis by simp
qed

lemma silent_caller_written:
  assumes "silent sch" and "written (stream_of sid w) = []"
  shows "written (stream_of sid (snd (snd (caller rs (sch, w))))) = []"
proof (rule caller_invariant_on[where A = "\<lambda>e. \<not> writes e"
      and P = "\<lambda>w. written (stream_of sid w) = []"])
  show "\<And>e w. \<not> writes e \<Longrightarrow> written (stream_of sid w) = [] \<Longrightarrow>
      written (stream_of sid (bg_step e w)) = []"
    by (simp add: written_bg_step_silent)
  show "\<forall>b\<in>set (fst (sch, w)). \<forall>e\<in>set b. \<not> writes e"
    using assms(1) by (simp add: silent_def list_all_iff)
  show "written (stream_of sid (snd (sch, w))) = []"
    using assms(2) by simp
qed simp_all

lemma silent_child_no_calls:
  assumes init: "RealTimeSubprocess_init host cmd out_cb err_cb = Inr w0" and "silent sch"
  shows "calls (snd (snd (caller rs (sch, w0)))) = []"
proof -
  let ?w = "snd (snd (caller rs (sch, w0)))"
  have wr: "written (stream_of sid ?w) = []" for sid
    using assms(2) init_world(5)[OF init] by (simp add: silent_caller_written fresh_stream_def)
  have cs: "conserved sid ?w" for sid
    using init_invariants(1)[OF init] by (simp add: conserved_caller)
  have d: "delivered sid ?w = []" for sid
    using wr[of sid] cs[of sid] by (simp add: conserved_def)
  have "list_all (\<lambda>k. argument k \<noteq> []) (calls ?w)"
    using init_world(1)[OF init] by (simp add: calls_nonempty_caller)
  with d[of Stdout] d[of Stderr] show ?thesis by (rule no_bytes_no_calls)
qed

subsection \<open>What one call of \<^verbatim>\<open>write_contents\<close> hands over\<close>

lemma take_background:
  "k \<le> m \<Longrightarrow>
   take (length (queue_of sid (background k c))) (queue_of sid (background m c)) =
     queue_of sid (background k c)"
  using background_prefix[of k m sid c] by (auto simp: prefix_def)

lemma calls_write_contents:
  "calls (snd (snd (write_contents (sch, w)))) =
     calls w @
     (if concat (snapshot Stdout (sch, w)) \<noteq> []
      then [Write_to_stdout (concat (snapshot Stdout (sch, w)))] else []) @
     (if (concat (snapshot Stdout (sch, w)) = [] \<or>
          write_to_stdout w (concat (snapshot Stdout (sch, w))) = None) \<and>
         concat (stderr_snapshot (sch, w)) \<noteq> []
      then [Write_to_stderr (concat (stderr_snapshot (sch, w)))] else [])"
proof (cases "concat (snapshot Stdout (sch, w)) = [] \<or>
    write_to_stdout w (concat (snapshot Stdout (sch, w))) = None")
  case True
  let ?n1 = "length (snapshot Stdout (sch, w))"
  let ?n2 = "length (stderr_snapshot (sch, w))"
  let ?B = "background (?n1 + ?n2 + 2) (sch, w)"
  have t1: "take ?n1 (queue_of Stdout ?B) = snapshot Stdout (sch, w)"
    unfolding snapshot_background by (rule take_background) simp
  have t2: "take ?n2 (queue_of Stderr ?B) = stderr_snapshot (sch, w)"
    unfolding stderr_snapshot_def
    by (rule take_background) simp
  have "calls (deliver Stderr ?n2 (deliver Stdout ?n1 ?B)) =
      calls w @
      (if concat (snapshot Stdout (sch, w)) \<noteq> []
       then [Write_to_stdout (concat (snapshot Stdout (sch, w)))] else []) @
      (if concat (stderr_snapshot (sch, w)) \<noteq> []
       then [Write_to_stderr (concat (stderr_snapshot (sch, w)))] else [])"
    by (simp only: calls_deliver deliver_keeps sid.simps if_False t1 t2 background_keeps
        snd_conv mk_call.simps append_assoc)
  with True show ?thesis
    by (simp only: write_contents_returned[OF True] snd_conv flushed_keeps if_True simp_thms)
next
  case False
  then obtain e where ne: "concat (snapshot Stdout (sch, w)) \<noteq> []"
    and r: "write_to_stdout w (concat (snapshot Stdout (sch, w))) = Some e"
    by auto
  let ?n1 = "length (snapshot Stdout (sch, w))"
  have t1: "take ?n1 (queue_of Stdout (background (Suc ?n1) (sch, w))) = snapshot Stdout (sch, w)"
    by (rule snapshot_is_taken)
  show ?thesis
    using ne r
    by (simp add: write_contents_raised[OF ne r] calls_deliver t1[simplified])
qed

lemma chunks_nonempty_background:
  "chunks_nonempty sid (snd c) \<Longrightarrow> chunks_nonempty sid (background k c)"
  unfolding background_def
  by (rule run_bg_invariant[where P = "chunks_nonempty sid"]) (simp_all add: chunks_nonempty_bg_step)

subsection \<open>After end of stream nothing moves\<close>

lemma enqueue_output_at_eof:
  assumes "enqueue_output t s q = (t', s', q')" and "t = Closing \<or> t = Finished"
  shows "(t' = Closing \<or> t' = Finished) \<and> q' = q \<and> buffered s' = buffered s \<and>
    writer_open s' = writer_open s \<and> written s' = written s"
  using assms by (auto simp: stream_close_def)

lemma drained_bg_step:
  assumes "drained sid w0 w"
  shows "drained sid w0 (bg_step e w)"
proof (cases e)
  case (Thread_step sid')
  obtain t s q where eq:
    "enqueue_output (thread_of sid' w) (stream_of sid' w) (queue_of sid' w) = (t, s, q)"
    by (metis prod_cases3)
  show ?thesis
  proof (cases "sid' = sid")
    case True
    note eq' = eq[unfolded True]
    have "thread_of sid w = Closing \<or> thread_of sid w = Finished"
      using assms by (simp add: drained_def at_eof_def)
    note keep = enqueue_output_at_eof[OF eq' this]
    have st: "bg_step e w = thread_upd sid t (stream_upd sid s (queue_upd sid q w))"
      by (simp add: Thread_step True eq')
    from keep assms show ?thesis
      unfolding st by (simp add: drained_def at_eof_def)
  next
    case False
    with assms show ?thesis
      by (simp add: drained_def at_eof_def Thread_step eq)
  qed
next
  case (Child_write sid' bs)
  with assms show ?thesis by (auto simp: drained_def at_eof_def stream_write_def)
next
  case (Child_close sid')
  with assms show ?thesis by (auto simp: drained_def at_eof_def)
next
  case (Child_exit c)
  with assms show ?thesis by (cases sid) (auto simp: drained_def at_eof_def)
next
  case (Io_fault sid')
  with assms show ?thesis by (auto simp: drained_def at_eof_def)
qed

lemma drained_background:
  assumes "at_eof sid w" and "eof_sound sid w"
  shows "drained sid w (background k (sch, w))"
proof -
  have "drained sid w w"
    using assms by (simp add: drained_def eof_sound_def)
  have "drained sid w (run_bg (concat (take k sch)) w)"
  proof (rule run_bg_invariant[where P = "drained sid w"])
    show "\<And>e w'. drained sid w w' \<Longrightarrow> drained sid w (bg_step e w')"
      by (rule drained_bg_step)
    show "drained sid w w" by fact
  qed
  then show ?thesis by (simp add: background_def)
qed

lemma inflight_at_eof: "at_eof sid w \<Longrightarrow> inflight (thread_of sid w) = []"
  by (auto simp: at_eof_def)

subsection \<open>The streams are out of the caller's reach\<close>

lemma written_bg_step_prefix:
  "prefix (written (stream_of sid w)) (written (stream_of sid (bg_step e w)))"
proof (cases e)
  case (Thread_step sid')
  obtain t s q where eq:
    "enqueue_output (thread_of sid' w) (stream_of sid' w) (queue_of sid' w) = (t, s, q)"
    by (metis prod_cases3)
  from enqueue_output_conserved[OF eq] show ?thesis
    by (simp add: Thread_step eq)
next
  case (Child_write sid' bs)
  then show ?thesis by (simp add: stream_write_def)
next
  case (Child_close sid')
  then show ?thesis by simp
next
  case (Child_exit c)
  then show ?thesis by (cases sid) simp_all
next
  case (Io_fault sid')
  then show ?thesis by simp
qed

lemma written_run_bg_prefix:
  "prefix (written (stream_of sid w)) (written (stream_of sid (run_bg es w)))"
proof (induction es arbitrary: w)
  case Nil
  show ?case by simp
next
  case (Cons e es)
  have "prefix (written (stream_of sid w)) (written (stream_of sid (bg_step e w)))"
    by (rule written_bg_step_prefix)
  also have "prefix \<dots> (written (stream_of sid (run_bg es (bg_step e w))))" by (rule Cons.IH)
  finally show ?case by simp
qed

lemma write_contents_world:
  "\<exists>k n1 n2. snd (snd (write_contents (sch, w))) =
     flushed (deliver Stderr n2 (deliver Stdout n1 (background k (sch, w))))"
proof (cases "concat (snapshot Stdout (sch, w)) = [] \<or>
    write_to_stdout w (concat (snapshot Stdout (sch, w))) = None")
  case True
  show ?thesis
    unfolding write_contents_returned[OF True] snd_conv by blast
next
  case False
  then obtain e where ne: "concat (snapshot Stdout (sch, w)) \<noteq> []"
    and r: "write_to_stdout w (concat (snapshot Stdout (sch, w))) = Some e"
    by auto
  have "deliver Stderr 0 w' = w'" for w'
    by (simp add: deliver_def)
  then have "snd (snd (write_contents (sch, w))) =
      flushed (deliver Stderr 0 (deliver Stdout (length (snapshot Stdout (sch, w)))
         (background (Suc (length (snapshot Stdout (sch, w)))) (sch, w))))"
    by (simp add: write_contents_raised[OF ne r])
  then show ?thesis by blast
qed

lemma written_write_contents_prefix:
  "prefix (written (stream_of sid w))
     (written (stream_of sid (snd (snd (write_contents (sch, w))))))"
proof -
  obtain k n1 n2 where "snd (snd (write_contents (sch, w))) =
     flushed (deliver Stderr n2 (deliver Stdout n1 (background k (sch, w))))"
    using write_contents_world by blast
  then show ?thesis
    by (simp add: background_def written_run_bg_prefix)
qed

lemma delivered_write_contents_prefix:
  "prefix (delivered sid w) (delivered sid (snd (snd (write_contents (sch, w)))))"
  by (simp add: delivered_def calls_write_contents)

lemma conserved_write_contents:
  "conserved sid (snd c) \<Longrightarrow> conserved sid (snd (snd (write_contents c)))"
proof (rule write_contents_invariant[where P = "conserved sid"])
  show "\<And>e w. conserved sid w \<Longrightarrow> conserved sid (bg_step e w)" by (rule conserved_bg_step)
  show "\<And>sida n w. conserved sid w \<Longrightarrow> conserved sid (deliver sida n w)"
    by (rule conserved_deliver)
  show "\<And>a w. conserved sid w \<Longrightarrow> conserved sid (w\<lparr>history := history w @ [a]\<rparr>)"
    by (simp add: conserved_def)
qed

lemma write_contents_None:
  assumes "fst (write_contents (sch, w)) = None"
  shows "concat (snapshot Stdout (sch, w)) = [] \<or>
      write_to_stdout w (concat (snapshot Stdout (sch, w))) = None"
proof (rule ccontr)
  assume "\<not> ?thesis"
  then obtain e where ne: "concat (snapshot Stdout (sch, w)) \<noteq> []"
    and r: "write_to_stdout w (concat (snapshot Stdout (sch, w))) = Some e"
    by auto
  from assms show False by (simp add: write_contents_raised[OF ne r])
qed

lemma flush_after_eof:
  assumes eof: "at_eof sid w" and snd: "eof_sound sid w" and cons: "conserved sid w"
    and ret: "fst (write_contents (sch, w)) = None"
  shows "delivered sid (snd (snd (write_contents (sch, w)))) = written (stream_of sid w) \<and>
    written (stream_of sid (snd (snd (write_contents (sch, w))))) = written (stream_of sid w) \<and>
    undelivered sid (snd (snd (write_contents (sch, w)))) = []"
proof -
  let ?n1 = "length (snapshot Stdout (sch, w))"
  let ?n2 = "length (stderr_snapshot (sch, w))"
  let ?B = "background (?n1 + ?n2 + 2) (sch, w)"
  let ?w' = "snd (snd (write_contents (sch, w)))"
  note d = drained_background[OF eof snd, of _ sch]
  have w': "?w' = flushed (deliver Stderr ?n2 (deliver Stdout ?n1 ?B))"
    by (simp add: write_contents_returned[OF write_contents_None[OF ret]])
  have q: "queue_of sid ?w' = []"
  proof (cases sid)
    case Stdout
    have "?n1 = length (queue_of Stdout w)"
      using d[of 1] by (simp add: snapshot_background drained_def Stdout)
    then show ?thesis
      using d[of "?n1 + ?n2 + 2"] by (simp add: w' Stdout drained_def)
  next
    case Stderr
    have "?n2 = length (queue_of Stderr w)"
      using d[of "?n1 + 2"] by (simp add: stderr_snapshot_def drained_def Stderr)
    then show ?thesis
      using d[of "?n1 + ?n2 + 2"] by (simp add: w' Stderr drained_def)
  qed
  have st: "stream_of sid ?w' = stream_of sid ?B" and th: "thread_of sid ?w' = thread_of sid ?B"
    by (simp_all add: w')
  have u: "undelivered sid ?w' = []"
    using d[of "?n1 + ?n2 + 2"]
    by (simp add: undelivered_def q st th drained_def inflight_at_eof)
  have wr: "written (stream_of sid ?w') = written (stream_of sid w)"
    using d[of "?n1 + ?n2 + 2"] by (simp add: st drained_def)
  have "conserved sid ?w'"
    using cons conserved_write_contents[of sid "(sch, w)"] by simp
  then have "delivered sid ?w' = written (stream_of sid ?w')"
    by (simp add: conserved_def u)
  with wr u show ?thesis by simp
qed

subsection \<open>Two calls of \<^verbatim>\<open>write_contents\<close> in a row\<close>









subsection \<open>The drain thread on its own\<close>

lemma thread_step_parts:
  assumes "enqueue_output (thread_of sid w) (stream_of sid w) (queue_of sid w) = (t, s, q)"
  shows "thread_of sid' (bg_step (Thread_step sid) w) = (if sid' = sid then t else thread_of sid' w)"
    and "stream_of sid' (bg_step (Thread_step sid) w) = (if sid' = sid then s else stream_of sid' w)"
    and "queue_of sid' (bg_step (Thread_step sid) w) = (if sid' = sid then q else queue_of sid' w)"
  using assms by simp_all

lemma drain_alone_0 [simp]: "drain_alone sid 0 w = w"
  by (simp add: drain_alone_def)

lemma drain_alone_Suc: "drain_alone sid (Suc k) w = drain_alone sid k (bg_step (Thread_step sid) w)"
  by (simp add: drain_alone_def)

lemma drain_alone_add: "drain_alone sid (j + k) w = drain_alone sid k (drain_alone sid j w)"
  by (simp add: drain_alone_def replicate_add run_bg_append)

lemma drain_alone_other:
  "sid' \<noteq> sid \<Longrightarrow>
   thread_of sid' (drain_alone sid k w) = thread_of sid' w \<and>
   stream_of sid' (drain_alone sid k w) = stream_of sid' w \<and>
   queue_of sid' (drain_alone sid k w) = queue_of sid' w"
proof (induction k arbitrary: w)
  case 0
  show ?case by simp
next
  case (Suc k)
  obtain t s q where eq:
    "enqueue_output (thread_of sid w) (stream_of sid w) (queue_of sid w) = (t, s, q)"
    by (metis prod_cases3)
  have a: "thread_of sid' (bg_step (Thread_step sid) w) = thread_of sid' w"
    "stream_of sid' (bg_step (Thread_step sid) w) = stream_of sid' w"
    "queue_of sid' (bg_step (Thread_step sid) w) = queue_of sid' w"
    using Suc.prems by (simp_all only: thread_step_parts[OF eq] if_False)
  from Suc.IH[OF Suc.prems, of "bg_step (Thread_step sid) w"]
  show ?case
    by (simp only: drain_alone_Suc a)
qed

lemma read_then_put:
  assumes "thread_of sid w = Reading" and "readable (stream_of sid w)"
    and "buffered (stream_of sid w) \<noteq> []"
  shows "thread_of sid (drain_alone sid 2 w) = Reading"
    and "queue_of sid (drain_alone sid 2 w) =
      queue_of sid w @ [take chunk_size (buffered (stream_of sid w))]"
    and "stream_of sid (drain_alone sid 2 w) =
      (stream_of sid w)\<lparr>buffered := drop chunk_size (buffered (stream_of sid w))\<rparr>"
proof -
  let ?s = "stream_of sid w"
  let ?line = "take chunk_size (buffered ?s)"
  let ?s' = "?s\<lparr>buffered := drop chunk_size (buffered ?s)\<rparr>"
  have ne: "?line \<noteq> []"
    using assms(3) by (simp add: chunk_size_def)
  have rd: "stream_read chunk_size ?s = (Returns ?line, ?s')"
    using assms(2,3) by (simp add: stream_read_def readable_def)
  have e1: "enqueue_output (thread_of sid w) ?s (queue_of sid w) =
      (Putting ?line, ?s', queue_of sid w)"
    using ne by (simp add: assms(1) rd)
  let ?w1 = "bg_step (Thread_step sid) w"
  note p1 = thread_step_parts[OF e1, of sid, unfolded if_P[OF refl]]
  have e2: "enqueue_output (thread_of sid ?w1) (stream_of sid ?w1) (queue_of sid ?w1) =
      (Reading, ?s', queue_of sid w @ [?line])"
    by (simp only: p1 enqueue_output.simps)
  note p2 = thread_step_parts[OF e2, of sid, unfolded if_P[OF refl]]
  have two: "drain_alone sid 2 w = bg_step (Thread_step sid) ?w1"
    by (simp add: drain_alone_def numeral_2_eq_2 del: bg_step.simps)
  show "thread_of sid (drain_alone sid 2 w) = Reading"
    and "queue_of sid (drain_alone sid 2 w) = queue_of sid w @ [?line]"
    and "stream_of sid (drain_alone sid 2 w) = ?s'"
    by (simp_all only: two p2)
qed

lemma read_eof_then_close:
  assumes "thread_of sid w = Reading" and "readable (stream_of sid w)"
    and "buffered (stream_of sid w) = []" and "\<not> writer_open (stream_of sid w)"
  shows "thread_of sid (drain_alone sid 2 w) = Finished"
    and "queue_of sid (drain_alone sid 2 w) = queue_of sid w"
    and "stream_of sid (drain_alone sid 2 w) = stream_close (stream_of sid w)"
proof -
  let ?s = "stream_of sid w"
  have rd: "stream_read chunk_size ?s = (Returns [], ?s)"
    using assms(2,3,4) by (simp add: stream_read_def readable_def)
  have e1: "enqueue_output (thread_of sid w) ?s (queue_of sid w) = (Closing, ?s, queue_of sid w)"
    by (simp add: assms(1) rd)
  let ?w1 = "bg_step (Thread_step sid) w"
  note p1 = thread_step_parts[OF e1, of sid, unfolded if_P[OF refl]]
  have e2: "enqueue_output (thread_of sid ?w1) (stream_of sid ?w1) (queue_of sid ?w1) =
      (Finished, stream_close ?s, queue_of sid w)"
    by (simp only: p1 enqueue_output.simps)
  note p2 = thread_step_parts[OF e2, of sid, unfolded if_P[OF refl]]
  have two: "drain_alone sid 2 w = bg_step (Thread_step sid) ?w1"
    by (simp add: drain_alone_def numeral_2_eq_2 del: bg_step.simps)
  show "thread_of sid (drain_alone sid 2 w) = Finished"
    and "queue_of sid (drain_alone sid 2 w) = queue_of sid w"
    and "stream_of sid (drain_alone sid 2 w) = stream_close ?s"
    by (simp_all only: two p2)
qed

lemma read_blocks:
  assumes "thread_of sid w = Reading" and "readable (stream_of sid w)"
    and "buffered (stream_of sid w) = []" and "writer_open (stream_of sid w)"
  shows "bg_step (Thread_step sid) w = w"
proof -
  have rd: "stream_read chunk_size (stream_of sid w) = (Blocks, stream_of sid w)"
    using assms(2,3,4) by (simp add: stream_read_def readable_def)
  show ?thesis
    using assms(1) rd by (cases sid) simp_all
qed

lemma finished_stays:
  "thread_of sid w = Finished \<Longrightarrow>
   thread_of sid (bg_step e w) = Finished \<and> queue_of sid (bg_step e w) = queue_of sid w"
proof (cases e)
  case (Thread_step sid')
  assume f: "thread_of sid w = Finished"
  obtain t s q where eq:
    "enqueue_output (thread_of sid' w) (stream_of sid' w) (queue_of sid' w) = (t, s, q)"
    by (metis prod_cases3)
  show ?thesis
  proof (cases "sid' = sid")
    case True
    from eq f have "t = Finished \<and> q = queue_of sid w" by (simp add: True)
    then show ?thesis
      unfolding Thread_step True
      by (simp only: thread_step_parts[OF eq[unfolded True]] if_True refl simp_thms)
  next
    case False
    then have ne: "sid \<noteq> sid'" by simp
    show ?thesis
      unfolding Thread_step using f
      by (simp only: thread_step_parts[OF eq] ne if_False simp_thms)
  qed
next
  case (Child_exit c)
  assume "thread_of sid w = Finished"
  then show ?thesis by (cases sid) (simp_all add: Child_exit)
qed simp_all

lemma finished_forever:
  "thread_of sid w = Finished \<Longrightarrow>
   thread_of sid (run_bg es w) = Finished \<and> queue_of sid (run_bg es w) = queue_of sid w"
proof (induction es arbitrary: w)
  case Nil
  then show ?case by simp
next
  case (Cons e es)
  from finished_stays[OF Cons.prems, of e] Cons.IH[of "bg_step e w"]
  show ?case by simp
qed

lemma chop_Nil: "chop n [] = []"
  by (subst chop.simps) simp

lemma chop_Cons: "bs \<noteq> [] \<Longrightarrow> chop chunk_size bs = take chunk_size bs # chop chunk_size (drop chunk_size bs)"
  by (subst chop.simps) (simp add: chunk_size_def)

lemma concat_chop: "concat (chop chunk_size bs) = bs"
proof (induction "length bs" arbitrary: bs rule: less_induct)
  case less
  show ?case
  proof (cases "bs = []")
    case True
    then show ?thesis by (simp add: chop_Nil)
  next
    case False
    then have "length (drop chunk_size bs) < length bs"
      by (simp add: chunk_size_def)
    then have "concat (chop chunk_size (drop chunk_size bs)) = drop chunk_size bs"
      by (rule less.hyps)
    then show ?thesis by (simp add: chop_Cons[OF False])
  qed
qed

lemma drain_to_the_end:
  assumes "thread_of sid w = Reading" and "readable (stream_of sid w)"
    and "\<not> writer_open (stream_of sid w)"
  shows "thread_of sid
      (drain_alone sid (2 * length (chop chunk_size (buffered (stream_of sid w))) + 2) w) =
      Finished \<and>
    queue_of sid
      (drain_alone sid (2 * length (chop chunk_size (buffered (stream_of sid w))) + 2) w) =
      queue_of sid w @ chop chunk_size (buffered (stream_of sid w)) \<and>
    stream_of sid
      (drain_alone sid (2 * length (chop chunk_size (buffered (stream_of sid w))) + 2) w) =
      stream_close ((stream_of sid w)\<lparr>buffered := []\<rparr>)"
  using assms
proof (induction "length (buffered (stream_of sid w))" arbitrary: w rule: less_induct)
  case less
  let ?bs = "buffered (stream_of sid w)"
  show ?case
  proof (cases "?bs = []")
    case True
    have z: "2 * length (chop chunk_size ?bs) + 2 = 2"
      by (simp add: True chop_Nil)
    have "(stream_of sid w)\<lparr>buffered := ?bs\<rparr> = stream_of sid w"
      by simp
    then have s: "(stream_of sid w)\<lparr>buffered := []\<rparr> = stream_of sid w"
      by (simp only: True)
    from read_eof_then_close[OF less.prems(1,2) True less.prems(3)]
    show ?thesis
      unfolding z s by (simp only: True chop_Nil append_Nil2 simp_thms)
  next
    case False
    let ?w2 = "drain_alone sid 2 w"
    let ?rest = "drop chunk_size ?bs"
    note step = read_then_put[OF less.prems(1,2) False]
    have b2: "buffered (stream_of sid ?w2) = ?rest"
      by (simp add: step(3))
    have shorter: "length (buffered (stream_of sid ?w2)) < length ?bs"
      using False by (simp add: b2 chunk_size_def)
    have r2: "readable (stream_of sid ?w2)"
      using less.prems(2) by (simp add: step(3) readable_def)
    have c2: "\<not> writer_open (stream_of sid ?w2)"
      using less.prems(3) by (simp add: step(3))
    note ih = less.hyps[OF shorter step(1) r2 c2, unfolded b2]
    have n: "2 * length (chop chunk_size ?bs) + 2 = 2 + (2 * length (chop chunk_size ?rest) + 2)"
      by (simp add: chop_Cons[OF False])
    have st: "stream_close ((stream_of sid ?w2)\<lparr>buffered := []\<rparr>) =
        stream_close ((stream_of sid w)\<lparr>buffered := []\<rparr>)"
      by (simp add: step(3))
    have split: "drain_alone sid (2 + (2 * length (chop chunk_size ?rest) + 2)) w =
        drain_alone sid (2 * length (chop chunk_size ?rest) + 2) ?w2"
      by (rule drain_alone_add)
    show ?thesis
      unfolding n split
      using ih by (simp only: step(2) st chop_Cons[OF False] append_assoc append.simps simp_thms)
  qed
qed


lemma chop_pieces: "list_all (\<lambda>x. x \<noteq> [] \<and> length x \<le> chunk_size) (chop chunk_size bs)"
proof (induction "length bs" arbitrary: bs rule: less_induct)
  case less
  show ?case
  proof (cases "bs = []")
    case True
    then show ?thesis by (simp add: chop_Nil)
  next
    case False
    then have "length (drop chunk_size bs) < length bs"
      by (simp add: chunk_size_def)
    then have "list_all (\<lambda>x. x \<noteq> [] \<and> length x \<le> chunk_size)
        (chop chunk_size (drop chunk_size bs))"
      by (rule less.hyps)
    moreover have "take chunk_size bs \<noteq> []"
      using False by (simp add: chunk_size_def)
    ultimately show ?thesis by (simp add: chop_Cons[OF False])
  qed
qed

lemma chop_5000: "chop chunk_size (replicate 5000 x) = [replicate 4096 x, replicate 904 x]"
  by (simp add: chop.simps chunk_size_def)

subsection \<open>A drain thread that died\<close>

lemma hush_keeps [simp]:
  "queue_of sid' (hush sid w) = queue_of sid' w"
  "stream_of sid' (hush sid w) = stream_of sid' w"
  "thread_of sid' (hush sid w) = (if sid' = sid then Finished else thread_of sid' w)"
  "calls (hush sid w) = calls w"
  "history (hush sid w) = history w"
  "returncode (hush sid w) = returncode w"
  "child_status (hush sid w) = child_status w"
  "write_to_stdout (hush sid w) = write_to_stdout w"
  "write_to_stderr (hush sid w) = write_to_stderr w"
  by (simp_all add: hush_def)

lemma hush_upd:
  "queue_upd sid' q (hush sid w) = hush sid (queue_upd sid' q w)"
  "stream_upd sid' s (hush sid w) = hush sid (stream_upd sid' s w)"
  "(hush sid w)\<lparr>calls := cs\<rparr> = hush sid (w\<lparr>calls := cs\<rparr>)"
  "(hush sid w)\<lparr>history := h\<rparr> = hush sid (w\<lparr>history := h\<rparr>)"
  "(hush sid w)\<lparr>returncode := r\<rparr> = hush sid (w\<lparr>returncode := r\<rparr>)"
  by (cases sid; cases sid'; simp add: hush_def)+

lemma hush_thread_upd_other:
  "sid' \<noteq> sid \<Longrightarrow> thread_upd sid' t (hush sid w) = hush sid (thread_upd sid' t w)"
  by (cases sid; cases sid'; simp add: hush_def)

lemma hush_thread_upd_same: "hush sid (thread_upd sid t w) = hush sid w"
  by (cases sid; simp add: hush_def)

lemma hush_hush [simp]: "hush sid (hush sid w) = hush sid w"
  by (cases sid; simp add: hush_def)

lemma thread_upd_same: "thread_upd sid (thread_of sid w) w = w"
  by (cases sid; simp)

lemma stream_upd_same: "stream_upd sid (stream_of sid w) w = w"
  by (cases sid; simp)

lemma queue_upd_same: "queue_upd sid (queue_of sid w) w = w"
  by (cases sid; simp)

lemma hush_bg_step:
  assumes "thread_of sid w = Crashed err"
  shows "bg_step e (hush sid w) = hush sid (bg_step e w) \<and>
    thread_of sid (bg_step e w) = Crashed err"
proof (cases e)
  case (Thread_step sid')
  show ?thesis
  proof (cases "sid' = sid")
    case True
    have l: "bg_step (Thread_step sid) (hush sid w) = hush sid w"
      by (simp add: hush_def stream_upd_same queue_upd_same)
        (simp add: hush_def[symmetric] hush_upd stream_upd_same queue_upd_same
          hush_thread_upd_same)
    have r: "bg_step (Thread_step sid) w = w"
      using assms by (simp add: stream_upd_same queue_upd_same)
        (metis thread_upd_same)
    show ?thesis
      unfolding Thread_step True l r using assms by simp
  next
    case False
    obtain t s q where eq:
      "enqueue_output (thread_of sid' w) (stream_of sid' w) (queue_of sid' w) = (t, s, q)"
      by (metis prod_cases3)
    have eq': "enqueue_output (thread_of sid' (hush sid w)) (stream_of sid' (hush sid w))
        (queue_of sid' (hush sid w)) = (t, s, q)"
      using False eq by simp
    have l: "bg_step (Thread_step sid') (hush sid w) =
        thread_upd sid' t (stream_upd sid' s (queue_upd sid' q (hush sid w)))"
      using eq' by simp
    have r: "bg_step (Thread_step sid') w = thread_upd sid' t (stream_upd sid' s (queue_upd sid' q w))"
      using eq by simp
    have ne: "sid \<noteq> sid'" using False by simp
    show ?thesis
      unfolding Thread_step l r
      using assms ne by (simp add: hush_upd hush_thread_upd_other[OF False])
  qed
next
  case (Child_write sid' bs)
  with assms show ?thesis by (simp add: hush_upd)
next
  case (Child_close sid')
  with assms show ?thesis by (simp add: hush_upd)
next
  case (Child_exit c)
  with assms show ?thesis by (cases sid) (simp_all add: hush_def)
next
  case (Io_fault sid')
  with assms show ?thesis by (simp add: hush_upd)
qed

lemma hush_run_bg:
  "thread_of sid w = Crashed err \<Longrightarrow>
   run_bg es (hush sid w) = hush sid (run_bg es w) \<and> thread_of sid (run_bg es w) = Crashed err"
proof (induction es arbitrary: w)
  case Nil
  then show ?case by simp
next
  case (Cons e es)
  note 1 = hush_bg_step[OF Cons.prems, of e]
  from Cons.IH[of "bg_step e w"] 1 show ?case by simp
qed

lemma hush_background:
  "thread_of sid w = Crashed err \<Longrightarrow>
   background k (sch, hush sid w) = hush sid (background k (sch, w)) \<and>
   thread_of sid (background k (sch, w)) = Crashed err"
  by (simp add: background_def hush_run_bg)

lemma hush_snapshot:
  assumes "thread_of sid w = Crashed err"
  shows "snapshot sid' (sch, hush sid w) = snapshot sid' (sch, w)"
    and "stderr_snapshot (sch, hush sid w) = stderr_snapshot (sch, w)"
proof -
  show 1: "snapshot sid' (sch, hush sid w) = snapshot sid' (sch, w)" for sid'
    by (simp add: snapshot_background hush_background[OF assms])
  show "stderr_snapshot (sch, hush sid w) = stderr_snapshot (sch, w)"
    by (simp add: stderr_snapshot_def 1 hush_background[OF assms])
qed

lemma hush_dropq: "dropq sid' n (hush sid w) = hush sid (dropq sid' n w)"
  by (simp add: dropq_def hush_upd)

lemma hush_deliver: "deliver sid' n (hush sid w) = hush sid (deliver sid' n w)"
  by (simp add: deliver_def hush_dropq hush_upd)

lemma hush_flushed: "flushed (hush sid w) = hush sid (flushed w)"
  by (simp add: flushed_def hush_upd)

lemma hush_write_contents:
  assumes cr: "thread_of sid w = Crashed err"
  shows "write_contents (sch, hush sid w) =
      (fst (write_contents (sch, w)),
       (fst (snd (write_contents (sch, w))), hush sid (snd (snd (write_contents (sch, w)))))) \<and>
    thread_of sid (snd (snd (write_contents (sch, w)))) = Crashed err"
proof (cases "concat (snapshot Stdout (sch, w)) = [] \<or>
    write_to_stdout w (concat (snapshot Stdout (sch, w))) = None")
  case True
  then have True': "concat (snapshot Stdout (sch, hush sid w)) = [] \<or>
      write_to_stdout (hush sid w) (concat (snapshot Stdout (sch, hush sid w))) = None"
    by (simp add: hush_snapshot[OF cr])
  show ?thesis
    unfolding write_contents_returned[OF True] write_contents_returned[OF True']
    by (simp add: hush_snapshot[OF cr] hush_background[OF cr] hush_deliver hush_flushed)
next
  case False
  then obtain e where ne: "concat (snapshot Stdout (sch, w)) \<noteq> []"
    and r: "write_to_stdout w (concat (snapshot Stdout (sch, w))) = Some e"
    by auto
  have ne': "concat (snapshot Stdout (sch, hush sid w)) \<noteq> []"
    and r': "write_to_stdout (hush sid w) (concat (snapshot Stdout (sch, hush sid w))) = Some e"
    using ne r by (simp_all add: hush_snapshot[OF cr])
  show ?thesis
    unfolding write_contents_raised[OF ne r] write_contents_raised[OF ne' r']
    by (simp add: hush_snapshot[OF cr] hush_background[OF cr] hush_deliver hush_flushed)
qed

lemma hush_poll:
  assumes cr: "thread_of sid w = Crashed err"
  shows "poll (sch, hush sid w) =
      (fst (poll (sch, w)), (fst (snd (poll (sch, w))), hush sid (snd (snd (poll (sch, w)))))) \<and>
    thread_of sid (snd (snd (poll (sch, w)))) = Crashed err"
  using hush_run_bg[OF cr, of "concat (take 1 sch)"]
  by (simp add: poll_def interleave_eq log_action_def Let_def hush_upd)

lemma hush_caller:
  "thread_of sid w = Crashed err \<Longrightarrow>
   caller rs (sch, hush sid w) =
     (fst (caller rs (sch, w)),
      (fst (snd (caller rs (sch, w))), hush sid (snd (snd (caller rs (sch, w))))))"
proof (induction rs arbitrary: sch w)
  case Nil
  show ?case by simp
next
  case (Cons r rs)
  show ?case
  proof (cases r)
    case Flush
    obtain x sch' w' where f: "write_contents (sch, w) = (x, (sch', w'))"
      by (metis prod_cases3)
    from hush_write_contents[OF Cons.prems, of sch]
    have h: "write_contents (sch, hush sid w) = (x, (sch', hush sid w'))"
      and cr: "thread_of sid w' = Crashed err"
      by (simp_all add: f)
    from Cons.IH[OF cr, of sch'] show ?thesis
      by (simp add: Flush f h split: prod.splits)
  next
    case Poll
    obtain x sch' w' where f: "poll (sch, w) = (x, (sch', w'))"
      by (metis prod_cases3)
    from hush_poll[OF Cons.prems, of sch]
    have h: "poll (sch, hush sid w) = (x, (sch', hush sid w'))"
      and cr: "thread_of sid w' = Crashed err"
      by (simp_all add: f)
    from Cons.IH[OF cr, of sch'] show ?thesis
      by (simp add: Poll f h split: prod.splits)
  qed
qed

lemma write_contents_result:
  "fst (write_contents (sch, w)) = None \<or>
   fst (write_contents (sch, w)) = write_to_stdout w (concat (snapshot Stdout (sch, w))) \<or>
   fst (write_contents (sch, w)) = write_to_stderr w (concat (stderr_snapshot (sch, w)))"
proof (cases "concat (snapshot Stdout (sch, w)) = [] \<or>
    write_to_stdout w (concat (snapshot Stdout (sch, w))) = None")
  case True
  show ?thesis by (simp add: write_contents_returned[OF True])
next
  case False
  then obtain e where ne: "concat (snapshot Stdout (sch, w)) \<noteq> []"
    and r: "write_to_stdout w (concat (snapshot Stdout (sch, w))) = Some e"
    by auto
  show ?thesis by (simp add: write_contents_raised[OF ne r] r)
qed

lemma read_fails:
  assumes "thread_of sid w = Reading" and "\<not> handle_closed (stream_of sid w)"
    and "failing (stream_of sid w)"
  shows "thread_of sid (bg_step (Thread_step sid) w) = Crashed OSError"
    and "queue_of sid (bg_step (Thread_step sid) w) = queue_of sid w"
    and "stream_of sid (bg_step (Thread_step sid) w) = stream_of sid w"
proof -
  have rd: "stream_read chunk_size (stream_of sid w) = (Raises OSError, stream_of sid w)"
    using assms(2,3) by (simp add: stream_read_def)
  have e1: "enqueue_output (thread_of sid w) (stream_of sid w) (queue_of sid w) =
      (Crashed OSError, stream_of sid w, queue_of sid w)"
    by (simp add: assms(1) rd)
  note p = thread_step_parts[OF e1, of sid, unfolded if_P[OF refl]]
  show "thread_of sid (bg_step (Thread_step sid) w) = Crashed OSError"
    and "queue_of sid (bg_step (Thread_step sid) w) = queue_of sid w"
    and "stream_of sid (bg_step (Thread_step sid) w) = stream_of sid w"
    by (simp_all only: p)
qed

lemma crashed_forever:
  assumes "thread_of sid w = Crashed err"
  shows "thread_of sid (run_bg es w) = Crashed err \<and> queue_of sid (run_bg es w) = queue_of sid w"
proof -
  from hush_run_bg[OF assms, of es]
  have h: "run_bg es (hush sid w) = hush sid (run_bg es w)"
    and c: "thread_of sid (run_bg es w) = Crashed err"
    by simp_all
  have "thread_of sid (hush sid w) = Finished" by simp
  from finished_forever[OF this, of es]
  have "queue_of sid (run_bg es (hush sid w)) = queue_of sid (hush sid w)" by simp
  then have "queue_of sid (run_bg es w) = queue_of sid w"
    by (simp add: h)
  with c show ?thesis by simp
qed

subsection \<open>The record of calls\<close>

lemma history_write_contents:
  "history (snd (snd (write_contents c))) = history (snd c) @ [Flushed]"
proof -
  obtain sch w where c: "c = (sch, w)" by (cases c)
  obtain k n1 n2 where "snd (snd (write_contents (sch, w))) =
     flushed (deliver Stderr n2 (deliver Stdout n1 (background k (sch, w))))"
    using write_contents_world by blast
  then show ?thesis by (simp add: c)
qed

lemma history_poll:
  "history (snd (snd (poll c))) = history (snd c) @ [Polled (fst (poll c))]"
  by (cases c) (simp add: poll_def interleave_eq log_action_def Let_def)

lemma returncode_poll: "returncode (snd (snd (poll c))) = fst (poll c)"
  by (cases c) (simp add: poll_def interleave_eq log_action_def Let_def)

lemma returncode_write_contents:
  "returncode (snd (snd (write_contents c))) = returncode (snd c)"
proof -
  obtain sch w where c: "c = (sch, w)" by (cases c)
  obtain k n1 n2 where "snd (snd (write_contents (sch, w))) =
     flushed (deliver Stderr n2 (deliver Stdout n1 (background k (sch, w))))"
    using write_contents_world by blast
  then show ?thesis by (simp add: c)
qed

lemma interrupted_round: "interrupted ext \<Longrightarrow> interrupted (Polled None # Flushed # ext)"
  by (cases ext) simp_all

lemma waiting_completed: "waiting ext \<Longrightarrow> completed (ext @ [Flushed])"
  by (induction ext rule: waiting.induct) simp_all

lemma wait_loop_trace:
  assumes "wait_loop c = Some y"
  shows "\<exists>ext. history (snd (snd y)) = history (snd c) @ ext \<and>
     (case fst y of None \<Rightarrow> waiting ext \<and> returncode (snd (snd y)) \<noteq> None
      | Some e \<Rightarrow> interrupted ext)"
  using assms
proof (induction rule: wait_loop.raw_induct[rotated, consumes 1, case_names step])
  case (step wait_loop c y)
  obtain rc c1 where p: "poll c = (rc, c1)" by (cases "poll c")
  have h1: "history (snd c1) = history (snd c) @ [Polled rc]"
    using history_poll[of c] by (simp add: p)
  show ?case
  proof (cases rc)
    case (Some code)
    with step(2) p have y: "y = (None, c1)" by simp
    have "returncode (snd c1) = Some code"
      using returncode_poll[of c] by (simp add: p Some)
    then show ?thesis
      using h1 by (simp add: y Some)
  next
    case None
    obtain x c2 where f: "write_contents c1 = (x, c2)" by (cases "write_contents c1")
    have h2: "history (snd c2) = history (snd c) @ [Polled None, Flushed]"
      using history_write_contents[of c1] by (simp add: f h1 None)
    show ?thesis
    proof (cases x)
      case (Some e)
      with step(2) p None f have "y = (Some e, c2)" by simp
      then show ?thesis using h2 by simp
    next
      case xNone: None
      with step(2) p None f have "wait_loop c2 = Some y" by simp
      from step(1)[OF this] obtain ext where ext: "history (snd (snd y)) = history (snd c2) @ ext"
        and ok: "case fst y of None \<Rightarrow> waiting ext \<and> returncode (snd (snd y)) \<noteq> None
          | Some e \<Rightarrow> interrupted ext"
        by blast
      have "history (snd (snd y)) = history (snd c) @ (Polled None # Flushed # ext)"
        by (simp add: ext h2)
      moreover have "case fst y of None \<Rightarrow> waiting (Polled None # Flushed # ext) \<and>
          returncode (snd (snd y)) \<noteq> None | Some e \<Rightarrow> interrupted (Polled None # Flushed # ext)"
        using ok by (cases "fst y") (simp_all add: interrupted_round)
      ultimately show ?thesis by blast
    qed
  qed
qed

subsection \<open>The loop ends when the child exits\<close>

lemma write_contents_config:
  "\<exists>k n1 n2. snd (write_contents (sch, w)) =
     (drop k sch, flushed (deliver Stderr n2 (deliver Stdout n1 (background k (sch, w)))))"
proof (cases "concat (snapshot Stdout (sch, w)) = [] \<or>
    write_to_stdout w (concat (snapshot Stdout (sch, w))) = None")
  case True
  show ?thesis
    unfolding write_contents_returned[OF True] snd_conv by blast
next
  case False
  then obtain e where ne: "concat (snapshot Stdout (sch, w)) \<noteq> []"
    and r: "write_to_stdout w (concat (snapshot Stdout (sch, w))) = Some e"
    by auto
  have "deliver Stderr 0 w' = w'" for w'
    by (simp add: deliver_def)
  then have "snd (write_contents (sch, w)) =
      (drop (Suc (length (snapshot Stdout (sch, w)))) sch,
       flushed (deliver Stderr 0 (deliver Stdout (length (snapshot Stdout (sch, w)))
         (background (Suc (length (snapshot Stdout (sch, w)))) (sch, w)))))"
    by (simp add: write_contents_raised[OF ne r])
  then show ?thesis by blast
qed

lemma child_status_bg_step:
  "child_status w \<noteq> None \<or> exits e \<Longrightarrow> child_status (bg_step e w) \<noteq> None"
  by (cases e) (auto split: prod.splits)

lemma child_status_run_bg:
  "child_status w \<noteq> None \<or> list_ex exits es \<Longrightarrow> child_status (run_bg es w) \<noteq> None"
proof (induction es arbitrary: w)
  case Nil
  then show ?case by simp
next
  case (Cons e es)
  show ?case
  proof (cases "child_status w \<noteq> None \<or> exits e")
    case True
    then have "child_status (bg_step e w) \<noteq> None" by (rule child_status_bg_step)
    then show ?thesis by (simp add: Cons.IH)
  next
    case False
    with Cons.prems have "list_ex exits es" by simp
    then show ?thesis by (simp add: Cons.IH)
  qed
qed

lemma child_exits_split:
  "child_exits sch \<Longrightarrow> list_ex exits (concat (take k sch)) \<or> child_exits (drop k sch)"
proof -
  assume "child_exits sch"
  then have "child_exits (take k sch @ drop k sch)" by simp
  then show ?thesis
    unfolding child_exits_def list_ex_append by (auto simp: list_ex_iff)
qed

lemma pending_after:
  assumes "pending (sch, w)"
  shows "child_status (background k (sch, w)) \<noteq> None \<or> child_exits (drop k sch)"
proof (cases "child_status w \<noteq> None")
  case True
  then show ?thesis by (simp add: background_def child_status_run_bg)
next
  case False
  with assms have "child_exits sch" by (simp add: pending_def)
  from child_exits_split[OF this, of k] show ?thesis
  proof
    assume "list_ex exits (concat (take k sch))"
    then have "child_status (run_bg (concat (take k sch)) w) \<noteq> None"
      by (simp add: child_status_run_bg)
    then show ?thesis by (simp add: background_def)
  next
    assume "child_exits (drop k sch)"
    then show ?thesis by simp
  qed
qed

lemma pending_write_contents:
  assumes "pending c"
  shows "pending (snd (write_contents c)) \<and> length (fst (snd (write_contents c))) \<le> length (fst c)"
proof -
  obtain sch w where c: "c = (sch, w)" by (cases c)
  obtain k n1 n2 where s: "snd (write_contents (sch, w)) =
     (drop k sch, flushed (deliver Stderr n2 (deliver Stdout n1 (background k (sch, w)))))"
    using write_contents_config by blast
  from pending_after[OF assms[unfolded c], of k] show ?thesis
    by (simp add: c s pending_def)
qed

lemma pending_poll:
  assumes "pending c"
  shows "pending (snd (poll c))"
    and "fst (poll c) = None \<Longrightarrow> length (fst (snd (poll c))) < length (fst c)"
proof -
  obtain sch w where c: "c = (sch, w)" by (cases c)
  let ?w1 = "background 1 (sch, w)"
  have w1: "run_bg (concat (take (Suc 0) sch)) w = ?w1"
    by (simp add: background_def)
  note after = pending_after[OF assms[unfolded c], of 1]
  have st: "child_status (snd (snd (poll c))) = child_status ?w1"
    and rest: "fst (snd (poll c)) = drop 1 sch"
    by (simp_all add: c poll_def interleave_eq log_action_def Let_def w1)
  show "pending (snd (poll c))"
    using after by (simp add: pending_def st rest)
  show "length (fst (snd (poll c))) < length (fst c)" if none: "fst (poll c) = None"
  proof -
    have "returncode (snd (snd (poll c))) = None"
      using none by (simp add: returncode_poll)
    then have "child_status ?w1 = None"
      by (simp add: c poll_def interleave_eq log_action_def Let_def w1 split: if_splits)
    with after have "child_exits (drop 1 sch)" by simp
    then have "sch \<noteq> []" by (auto simp: child_exits_def)
    then show ?thesis unfolding rest by (simp add: c)
  qed
qed

lemma wait_loop_returns: "pending c \<Longrightarrow> wait_loop c \<noteq> None"
proof (induction "length (fst c)" arbitrary: c rule: less_induct)
  case less
  obtain rc c1 where p: "poll c = (rc, c1)" by (cases "poll c")
  show ?case
  proof (cases rc)
    case (Some code)
    then show ?thesis by (subst wait_loop.simps) (simp add: p)
  next
    case None
    have p1: "pending c1" and l1: "length (fst c1) < length (fst c)"
      using pending_poll[OF less.prems] by (simp_all add: p None)
    obtain x c2 where f: "write_contents c1 = (x, c2)" by (cases "write_contents c1")
    have p2: "pending c2" and l2: "length (fst c2) \<le> length (fst c1)"
      using pending_write_contents[OF p1] by (simp_all add: f)
    show ?thesis
    proof (cases x)
      case (Some e)
      then show ?thesis by (subst wait_loop.simps) (simp add: p None f)
    next
      case xNone: None
      have "wait_loop c2 \<noteq> None"
        using l1 l2 p2 by (intro less.hyps) simp_all
      then show ?thesis by (subst wait_loop.simps) (simp add: p None f xNone)
    qed
  qed
qed

subsection \<open>\<^verbatim>\<open>do_execute\<close>\<close>

lemma poll_and_flush_trace:
  assumes "poll_and_flush c = Some y"
  shows "\<exists>ext. history (snd (snd y)) = history (snd c) @ ext \<and> obeys ext \<and>
     (fst y = None \<longrightarrow> completed ext)"
proof -
  from assms obtain z where wl: "wait_loop c = Some z"
    by (auto simp: poll_and_flush_def split: option.splits)
  from wait_loop_trace[OF wl] obtain ext where
    h: "history (snd (snd z)) = history (snd c) @ ext"
    and ok: "case fst z of None \<Rightarrow> waiting ext \<and> returncode (snd (snd z)) \<noteq> None
      | Some e \<Rightarrow> interrupted ext"
    by blast
  show ?thesis
  proof (cases "fst z")
    case None
    then have y: "y = write_contents (snd z)"
      using assms wl by (cases z) (simp add: poll_and_flush_def)
    have "history (snd (snd y)) = history (snd c) @ (ext @ [Flushed])"
      by (simp add: y history_write_contents h)
    moreover have "completed (ext @ [Flushed])"
      using ok None by (simp add: waiting_completed)
    ultimately show ?thesis by (auto simp: obeys_def)
  next
    case (Some e)
    then have y: "y = z"
      using assms wl by (cases z) (simp add: poll_and_flush_def)
    have "interrupted ext" using ok Some by simp
    then show ?thesis using h Some by (auto simp: y obeys_def)
  qed
qed

lemma poll_and_flush_fresh:
  assumes "RealTimeSubprocess_init host cmd out_cb err_cb = Inr p"
    and "poll_and_flush (sch, p) = Some (r, (s', p'))"
  shows "obeys (history p')" and "r = None \<Longrightarrow> completed (history p')"
proof -
  from poll_and_flush_trace[OF assms(2)] init_world(2)[OF assms(1)]
  show "obeys (history p')" and "r = None \<Longrightarrow> completed (history p')"
    by auto
qed

lemma poll_and_flush_returns: "pending c \<Longrightarrow> poll_and_flush c \<noteq> None"
proof -
  assume "pending c"
  then obtain r c1 where "wait_loop c = Some (r, c1)"
    using wait_loop_returns[of c] by auto
  then show ?thesis by (cases r) (simp_all add: poll_and_flush_def)
qed

lemma pending_fresh: "child_exits sch \<Longrightarrow> pending (sch, p)"
  by (simp add: pending_def)

lemma do_execute_returns:
  assumes "child_exits sch1" and "child_exits sch2"
  shows "do_execute host decode compiler source_filename binary_filename cflags ldflags sch1 sch2
    \<noteq> None"
proof -
  have a1: "poll_and_flush (sch1, p) \<noteq> None" for p
    by (rule poll_and_flush_returns[OF pending_fresh[OF assms(1)]])
  have a2: "poll_and_flush (sch2, p) \<noteq> None" for p
    by (rule poll_and_flush_returns[OF pending_fresh[OF assms(2)]])
  show ?thesis
    by (auto simp: do_execute_def a1 a2 split: prod.splits sum.splits option.splits)
qed

lemma do_execute_obeys:
  assumes "do_execute host decode compiler source_filename binary_filename cflags ldflags
      sch1 sch2 = Some x"
  shows "list_all (\<lambda>p. obeys (history p)) (processes x) \<and>
    (raised x = None \<longrightarrow> list_all (\<lambda>p. completed (history p)) (processes x))"
proof -
  obtain m1 r1 where c: "compile host decode compiler source_filename binary_filename
      cflags ldflags = (m1, r1)"
    by (cases "compile host decode compiler source_filename binary_filename cflags ldflags")
  show ?thesis
  proof (cases r1)
    case (Inl e)
    with assms c show ?thesis by (cases e) (auto simp: do_execute_def)
  next
    case (Inr p)
    then have init1: "RealTimeSubprocess_init host
        ([compiler, source_filename] @ (''-std=c++11'' # cflags) @ [''-o'', binary_filename] @
          ldflags) (decoding decode) (decoding decode) = Inr p"
      using c by (simp add: compile_def create_jupyter_subprocess_def)
    from assms c Inr obtain ra s1 p1 where pf1: "poll_and_flush (sch1, p) = Some (ra, (s1, p1))"
      by (auto simp: do_execute_def split: option.splits)
    note o1 = poll_and_flush_fresh[OF init1 pf1]
    show ?thesis
    proof (cases ra)
      case (Some e)
      with assms c Inr pf1 o1 show ?thesis by (auto simp: do_execute_def)
    next
      case None
      note c1 = o1(2)[OF None]
      show ?thesis
      proof (cases "returncode p1 \<noteq> Some 0")
        case True
        with assms c Inr pf1 None o1(1) c1 show ?thesis by (auto simp: do_execute_def)
      next
        case False
        obtain m2 r2 where c2: "create_jupyter_subprocess host decode [binary_filename] = (m2, r2)"
          by (cases "create_jupyter_subprocess host decode [binary_filename]")
        show ?thesis
        proof (cases r2)
          case (Inl e)
          with assms c Inr pf1 None False c2 o1(1) show ?thesis
            by (cases e) (auto simp: do_execute_def)
        next
          case q: (Inr q)
          then have init2: "RealTimeSubprocess_init host [binary_filename]
              (decoding decode) (decoding decode) = Inr q"
            using c2 by (simp add: create_jupyter_subprocess_def)
          from assms c Inr pf1 None False c2 q obtain rb s2 q1 where
            pf2: "poll_and_flush (sch2, q) = Some (rb, (s2, q1))"
            by (auto simp: do_execute_def split: option.splits)
          note o2 = poll_and_flush_fresh[OF init2 pf2]
          show ?thesis
          proof (cases rb)
            case (Some e)
            with assms c Inr pf1 None False c2 q pf2 o1(1) o2(1) show ?thesis
              by (auto simp: do_execute_def)
          next
            case rbNone: None
            note d2 = o2(2)[OF rbNone]
            from assms c Inr pf1 None False c2 q pf2 rbNone o1(1) c1 o2(1) d2 show ?thesis
              by (auto simp: do_execute_def)
          qed
        qed
      qed
    qed
  qed
qed

subsection \<open>\<^verbatim>\<open>write_contents\<close> as a list of operations\<close>

lemma perform_append:
  "perform (a @ b) c =
     (case perform a c of (Some e, c') \<Rightarrow> (Some e, c') | (None, c') \<Rightarrow> perform b c')"
proof (induction a arbitrary: c)
  case Nil
  show ?case by simp
next
  case (Cons x a)
  show ?case
    by (cases x) (simp_all add: Cons.IH split: prod.splits sum.splits option.splits)
qed

lemma perform_gets:
  "perform (replicate n (Get_nowait sid)) c =
     (case read_loop sid n res c of (Inl e, c') \<Rightarrow> (Some e, c') | (Inr x, c') \<Rightarrow> (None, c'))"
proof (induction n arbitrary: res c)
  case 0
  show ?case by simp
next
  case (Suc n)
  obtain r c1 where g: "get_nowait sid c = (r, c1)" by (cases "get_nowait sid c")
  show ?case
  proof (cases r)
    case (Inl e)
    then show ?thesis by (simp add: g)
  next
    case (Inr x)
    then show ?thesis
      using Suc.IH[where res = "res @ x" and c = c1] by (simp add: g)
  qed
qed

lemma qsize_snapshot:
  "fst (qsize sid c) = length (snapshot sid c)"
  by (cases c) (simp add: qsize_def snapshot_def split: prod.splits)

lemma perform_flush_ops:
  "perform (flush_ops sid (snapshot sid c)) c = flush_stream sid c"
proof -
  obtain sz c1 where q: "qsize sid c = (sz, c1)" by (cases "qsize sid c")
  have sz: "sz = length (snapshot sid c)"
    using qsize_snapshot[of sid c] q by simp
  have r: "read_loop sid sz [] c1 = read_all_from_queue sid c"
    by (simp add: read_all_from_queue_def q)
  obtain c2 where l: "read_all_from_queue sid c = (Inr (concat (snapshot sid c)), c2)"
    by (simp add: read_all_from_queue_linear)
  have g: "perform (replicate sz (Get_nowait sid)) c1 = (None, c2)"
    by (simp add: perform_gets[where res = "[]"] r l)
  have "perform (flush_ops sid (snapshot sid c)) c =
      perform (replicate sz (Get_nowait sid) @
        (if concat (snapshot sid c) \<noteq> []
         then [Invoke (mk_call sid (concat (snapshot sid c)))] else [])) c1"
    by (simp add: flush_ops_def q sz)
  also have "\<dots> = perform (if concat (snapshot sid c) \<noteq> []
         then [Invoke (mk_call sid (concat (snapshot sid c)))] else []) c2"
    by (simp only: perform_append g) simp
  also have "\<dots> = flush_stream sid c"
    by (simp add: flush_stream_def l split: prod.splits option.splits)
  finally show ?thesis .
qed

lemma stderr_snapshot_after_stdout:
  "snapshot Stderr (snd (flush_stream Stdout (sch, flushed w))) = stderr_snapshot (sch, w)"
proof -
  let ?n1 = "length (snapshot Stdout (sch, w))"
  let ?c1 = "(sch, flushed w)"
  let ?c2 = "(drop (Suc ?n1) sch, deliver Stdout ?n1 (background (Suc ?n1) ?c1))"
  have le: "?n1 \<le> length (queue_of Stdout (background (Suc ?n1) ?c1))"
    using snapshot_length_le[of Stdout "(sch, w)"]
    by (simp add: background_flushed)
  have bk: "\<And>k. background k ?c2 = deliver Stdout ?n1 (background (Suc ?n1 + k) ?c1)"
    using le by (rule background_deliver)
  have "snapshot Stderr ?c2 = queue_of Stderr (background 1 ?c2)"
    by (rule snapshot_background)
  also have "\<dots> = queue_of Stderr (deliver Stdout ?n1 (background (Suc ?n1 + 1) ?c1))"
    by (simp only: bk)
  also have "\<dots> = queue_of Stderr (background (Suc ?n1 + 1) ?c1)"
    by (simp only: deliver_keeps) simp
  also have "\<dots> = stderr_snapshot (sch, w)"
    by (simp add: stderr_snapshot_def background_flushed)
  finally have sn: "snapshot Stderr ?c2 = stderr_snapshot (sch, w)" .
  have "snd (flush_stream Stdout (sch, flushed w)) = ?c2"
    by (simp add: flush_stream_linear)
  then show ?thesis using sn by simp
qed

lemma write_contents_perform:
  "write_contents (sch, w) =
     perform (flush_ops Stdout (snapshot Stdout (sch, w)) @
              flush_ops Stderr (stderr_snapshot (sch, w))) (sch, flushed w)"
proof -
  obtain r c2 where f: "flush_stream Stdout (sch, flushed w) = (r, c2)"
    by (cases "flush_stream Stdout (sch, flushed w)")
  have s2: "snapshot Stderr c2 = stderr_snapshot (sch, w)"
    using stderr_snapshot_after_stdout[of sch w] f by simp
  have p1: "perform (flush_ops Stdout (snapshot Stdout (sch, w))) (sch, flushed w) = (r, c2)"
    using perform_flush_ops[of Stdout "(sch, flushed w)"] f by simp
  have p2: "perform (flush_ops Stderr (stderr_snapshot (sch, w))) c2 = flush_stream Stderr c2"
    using perform_flush_ops[of Stderr c2] s2 by simp
  show ?thesis
    by (cases r) (simp_all add: perform_append p1 p2 write_contents_flush_stream
        log_action_Flushed f)
qed


lemma write_contents_raised_parts:
  assumes "concat (snapshot Stdout (sch, w)) \<noteq> []"
    and "write_to_stdout w (concat (snapshot Stdout (sch, w))) = Some e"
  shows "fst (write_contents (sch, w)) = Some e"
    and "fst (snd (write_contents (sch, w))) = drop (Suc (length (snapshot Stdout (sch, w)))) sch"
    and "queue_of Stdout (snd (snd (write_contents (sch, w)))) =
      drop (length (snapshot Stdout (sch, w)))
        (queue_of Stdout (background (Suc (length (snapshot Stdout (sch, w)))) (sch, w)))"
    and "queue_of Stderr (snd (snd (write_contents (sch, w)))) =
      queue_of Stderr (background (Suc (length (snapshot Stdout (sch, w)))) (sch, w))"
    and "calls (snd (snd (write_contents (sch, w)))) =
      calls w @ [Write_to_stdout (concat (snapshot Stdout (sch, w)))]"
proof -
  note r = write_contents_raised[OF assms]
  show "fst (write_contents (sch, w)) = Some e" by (simp add: r)
  show "fst (snd (write_contents (sch, w))) = drop (Suc (length (snapshot Stdout (sch, w)))) sch"
    by (simp add: r)
  show "queue_of Stdout (snd (snd (write_contents (sch, w)))) =
      drop (length (snapshot Stdout (sch, w)))
        (queue_of Stdout (background (Suc (length (snapshot Stdout (sch, w)))) (sch, w)))"
    by (simp add: r)
  show "queue_of Stderr (snd (snd (write_contents (sch, w)))) =
      queue_of Stderr (background (Suc (length (snapshot Stdout (sch, w)))) (sch, w))"
    by (simp add: r)
  show "calls (snd (snd (write_contents (sch, w)))) =
      calls w @ [Write_to_stdout (concat (snapshot Stdout (sch, w)))]"
    using assms by (simp add: calls_write_contents)
qed

lemma write_contents_returned_parts:
  assumes "concat (snapshot Stdout (sch, w)) = [] \<or>
      write_to_stdout w (concat (snapshot Stdout (sch, w))) = None"
  shows "fst (write_contents (sch, w)) =
      (if concat (stderr_snapshot (sch, w)) \<noteq> []
       then write_to_stderr w (concat (stderr_snapshot (sch, w))) else None)"
    and "fst (snd (write_contents (sch, w))) =
      drop (length (snapshot Stdout (sch, w)) + length (stderr_snapshot (sch, w)) + 2) sch"
    and "queue_of Stdout (snd (snd (write_contents (sch, w)))) =
      drop (length (snapshot Stdout (sch, w)))
        (queue_of Stdout
          (background (length (snapshot Stdout (sch, w)) + length (stderr_snapshot (sch, w)) + 2)
            (sch, w)))"
    and "queue_of Stderr (snd (snd (write_contents (sch, w)))) =
      drop (length (stderr_snapshot (sch, w)))
        (queue_of Stderr
          (background (length (snapshot Stdout (sch, w)) + length (stderr_snapshot (sch, w)) + 2)
            (sch, w)))"
proof -
  note r = write_contents_returned[OF assms]
  show "fst (write_contents (sch, w)) =
      (if concat (stderr_snapshot (sch, w)) \<noteq> []
       then write_to_stderr w (concat (stderr_snapshot (sch, w))) else None)"
    by (simp add: r)
  show "fst (snd (write_contents (sch, w))) =
      drop (length (snapshot Stdout (sch, w)) + length (stderr_snapshot (sch, w)) + 2) sch"
    by (simp add: r)
  show "queue_of Stdout (snd (snd (write_contents (sch, w)))) =
      drop (length (snapshot Stdout (sch, w)))
        (queue_of Stdout
          (background (length (snapshot Stdout (sch, w)) + length (stderr_snapshot (sch, w)) + 2)
            (sch, w)))"
    by (simp add: r)
  show "queue_of Stderr (snd (snd (write_contents (sch, w)))) =
      drop (length (stderr_snapshot (sch, w)))
        (queue_of Stderr
          (background (length (snapshot Stdout (sch, w)) + length (stderr_snapshot (sch, w)) + 2)
            (sch, w)))"
    by (simp add: r)
qed

lemma snapshots_are_taken:
  "take (length (snapshot Stdout (sch, w)))
     (queue_of Stdout
       (background (length (snapshot Stdout (sch, w)) + length (stderr_snapshot (sch, w)) + 2)
         (sch, w))) = snapshot Stdout (sch, w)"
  "take (length (stderr_snapshot (sch, w)))
     (queue_of Stderr
       (background (length (snapshot Stdout (sch, w)) + length (stderr_snapshot (sch, w)) + 2)
         (sch, w))) = stderr_snapshot (sch, w)"
proof -
  let ?k = "length (snapshot Stdout (sch, w)) + length (stderr_snapshot (sch, w)) + 2"
  have "prefix (queue_of Stdout (background 1 (sch, w))) (queue_of Stdout (background ?k (sch, w)))"
    by (rule background_prefix) simp
  then show "take (length (snapshot Stdout (sch, w))) (queue_of Stdout (background ?k (sch, w))) =
      snapshot Stdout (sch, w)"
    by (auto simp: snapshot_background prefix_def)
  have "prefix (queue_of Stderr (background (length (snapshot Stdout (sch, w)) + 2) (sch, w)))
      (queue_of Stderr (background ?k (sch, w)))"
    by (rule background_prefix) simp
  then show "take (length (stderr_snapshot (sch, w))) (queue_of Stderr (background ?k (sch, w))) =
      stderr_snapshot (sch, w)"
    by (auto simp: stderr_snapshot_def prefix_def)
qed

section \<open>The claims\<close>

text \<open>
  C6. The callbacks are invoked from within \<^verbatim>\<open>write_contents\<close> only: no background action,
  and so no step of a drain thread, changes the record of the calls made; a step of a
  drain thread changes its own thread, stream and queue and nothing else that the
  caller sees; \<^verbatim>\<open>poll\<close> makes no call; and a caller that never flushes has no callback
  invoked, whatever the schedule.
\<close>

theorem callbacks_only_within_flush:
  "calls (bg_step e w) = calls w \<and>
   calls (run_bg es w) = calls w \<and>
   calls (snd (interleave c)) = calls (snd c) \<and>
   calls (snd (snd (poll c))) = calls (snd c) \<and>
   (Flush \<notin> set rs \<longrightarrow> calls (snd (snd (caller rs c))) = calls (snd c))"
  by (simp add: calls_caller_no_flush)

theorem callbacks_only_within_flush_witness:
  "Flush \<notin> set [Poll, Poll] \<and>
   calls (snd (snd (caller [Poll, Poll]
      ([[Child_write Stdout ''hi'', Thread_step Stdout, Thread_step Stdout], [Child_exit 0]],
       started)))) = [] \<and>
   stdout_queue (snd (snd (caller [Poll, Poll]
      ([[Child_write Stdout ''hi'', Thread_step Stdout, Thread_step Stdout], [Child_exit 0]],
       started)))) = [''hi'']"
proof -
  have h: "Flush \<notin> set [Poll, Poll]" by simp
  have q: "stdout_queue (snd (snd (caller [Poll, Poll]
      ([[Child_write Stdout ''hi'', Thread_step Stdout, Thread_step Stdout], [Child_exit 0]],
       started)))) = [''hi'']"
    by code_simp
  from callbacks_only_within_flush[where rs = "[Poll, Poll]" and c =
      "([[Child_write Stdout ''hi'', Thread_step Stdout, Thread_step Stdout], [Child_exit 0]],
       started)"] h q
  show ?thesis by (simp add: started_def)
qed

text \<open>
  C4, as the code has it. The constructor raises exactly when \<^verbatim>\<open>Popen.__init__\<close> or one of
  the two \<^verbatim>\<open>Thread.start\<close> raises, and then with that exception, at once. When it is
  \<^verbatim>\<open>Popen.__init__\<close> that raises (the executable cannot be located or started), nothing
  of the lines below it exists: no child, no pipe, no queue, no drain thread. When it
  is a \<^verbatim>\<open>Thread.start\<close>, the child and its two pipes exist and stay, and so does the
  stdout drain thread when it is the stderr thread that cannot be started. When nothing
  raises there are two drain threads, both at their first read, and two empty queues.
\<close>

theorem spawn_failure_leaves_nothing:
  "(popen host cmd = Some e \<longrightarrow>
      RealTimeSubprocess_init host cmd out_cb err_cb = Inl (e, nothing)) \<and>
   child nothing = None \<and> pipes nothing = [] \<and> queues nothing = [] \<and> threads nothing = [] \<and>
   (RealTimeSubprocess_init host cmd out_cb err_cb = Inl (e, left) \<longrightarrow>
      (popen host cmd = Some e \<and> left = nothing) \<or>
      (popen host cmd = None \<and> thread_start host Stdout = Some e \<and>
         child left = Some cmd \<and> pipes left = [Stdout, Stderr] \<and>
         queues left = [Stdout] \<and> threads left = []) \<or>
      (popen host cmd = None \<and> thread_start host Stdout = None \<and>
         thread_start host Stderr = Some e \<and>
         child left = Some cmd \<and> pipes left = [Stdout, Stderr] \<and>
         queues left = [Stdout, Stderr] \<and> threads left = [Stdout])) \<and>
   (RealTimeSubprocess_init host cmd out_cb err_cb = Inr w \<longrightarrow>
      popen host cmd = None \<and> thread_start host Stdout = None \<and>
      thread_start host Stderr = None \<and>
      stdout_thread w = Reading \<and> stderr_thread w = Reading \<and>
      stdout_queue w = [] \<and> stderr_queue w = [])"
proof -
  have 1: "popen host cmd = Some e \<longrightarrow>
      RealTimeSubprocess_init host cmd out_cb err_cb = Inl (e, nothing)"
    by (simp add: RealTimeSubprocess_init_def)
  have 2: "child nothing = None \<and> pipes nothing = [] \<and> queues nothing = [] \<and>
      threads nothing = []"
    by (simp add: nothing_def)
  have 3: "RealTimeSubprocess_init host cmd out_cb err_cb = Inl (e, left) \<longrightarrow>
      (popen host cmd = Some e \<and> left = nothing) \<or>
      (popen host cmd = None \<and> thread_start host Stdout = Some e \<and>
         child left = Some cmd \<and> pipes left = [Stdout, Stderr] \<and>
         queues left = [Stdout] \<and> threads left = []) \<or>
      (popen host cmd = None \<and> thread_start host Stdout = None \<and>
         thread_start host Stderr = Some e \<and>
         child left = Some cmd \<and> pipes left = [Stdout, Stderr] \<and>
         queues left = [Stdout, Stderr] \<and> threads left = [Stdout])"
    by (auto simp: RealTimeSubprocess_init_def Let_def nothing_def split: option.splits)
  have 4: "RealTimeSubprocess_init host cmd out_cb err_cb = Inr w \<longrightarrow>
      popen host cmd = None \<and> thread_start host Stdout = None \<and>
      thread_start host Stderr = None \<and>
      stdout_thread w = Reading \<and> stderr_thread w = Reading \<and>
      stdout_queue w = [] \<and> stderr_queue w = []"
    by (auto simp: RealTimeSubprocess_init_def Let_def split: option.splits)
  from 1 2 3 4 show ?thesis by blast
qed

theorem spawn_failure_leaves_nothing_witness:
  "popen no_such_file [''./missing''] = Some OSError \<and>
   RealTimeSubprocess_init no_such_file [''./missing''] quiet quiet = Inl (OSError, nothing) \<and>
   threads nothing = [] \<and> queues nothing = [] \<and> pipes nothing = [] \<and> child nothing = None \<and>
   RealTimeSubprocess_init accept_all [''./a.out''] quiet quiet = Inr started \<and>
   stdout_thread started = Reading \<and> stderr_thread started = Reading"
proof -
  have p: "popen no_such_file [''./missing''] = Some OSError"
    by (simp add: no_such_file_def)
  from spawn_failure_leaves_nothing[of no_such_file "[''./missing'']" OSError quiet quiet]
    spawn_failure_leaves_nothing[of accept_all "[''./a.out'']" _ quiet quiet _ started]
    p started_init
  show ?thesis by simp
qed

text \<open>
  C4, as stated, fails: the child has been created and the stdout thread started when
  the start of the stderr thread raises. The constructor raises, and the child, its two
  pipes, the two queues and the running stdout thread are left behind.
\<close>

theorem thread_start_failure_leaves_child:
  "RealTimeSubprocess_init (out_of_threads Stderr) [''./a.out''] quiet quiet =
     Inl (RuntimeError,
       \<lparr>child = Some [''./a.out''], pipes = [Stdout, Stderr], queues = [Stdout, Stderr],
        threads = [Stdout]\<rparr>)"
  by (simp add: RealTimeSubprocess_init_def out_of_threads_def nothing_def)

text \<open>
  C8. In every execution of a subprocess that was spawned, under every schedule and
  after any calls of the caller, no chunk on a queue is empty, and the drain thread
  holds no empty line to put; so what \<^verbatim>\<open>read_all_from_queue\<close> returns is empty exactly
  when the queue held no chunk at the moment its size was read.
\<close>

theorem no_empty_chunk_on_queue:
  "RealTimeSubprocess_init host cmd out_cb err_cb = Inr w0 \<Longrightarrow>
   list_all (\<lambda>x. x \<noteq> []) (queue_of sid (snd (snd (caller rs (sch, w0))))) \<and>
   thread_of sid (snd (snd (caller rs (sch, w0)))) \<noteq> Putting [] \<and>
   (fst (read_all_from_queue sid (snd (caller rs (sch, w0)))) = Inr [] \<longleftrightarrow>
      snapshot sid (snd (caller rs (sch, w0))) = [])"
proof -
  assume init: "RealTimeSubprocess_init host cmd out_cb err_cb = Inr w0"
  let ?c = "snd (caller rs (sch, w0))"
  have inv: "chunks_nonempty sid (snd ?c)"
    using init_invariants(2)[OF init] by (simp add: chunks_nonempty_caller)
  then have "chunks_nonempty sid (background 1 ?c)"
    by (rule chunks_nonempty_background)
  then have "list_all (\<lambda>x. x \<noteq> []) (snapshot sid ?c)"
    by (simp add: snapshot_background chunks_nonempty_def)
  then have "concat (snapshot sid ?c) = [] \<longleftrightarrow> snapshot sid ?c = []"
    by (rule concat_nonempty_chunks)
  with inv show ?thesis
    by (simp add: read_all_from_queue_linear chunks_nonempty_def)
qed

theorem no_empty_chunk_on_queue_witness:
  "RealTimeSubprocess_init accept_all [''./a.out''] quiet quiet = Inr started \<and>
   queue_of Stdout (snd (snd (caller [Poll]
     ([[Child_write Stdout ''hi'', Thread_step Stdout, Thread_step Stdout, Child_exit 0,
        Thread_step Stdout]], started)))) = [''hi''] \<and>
   list_all (\<lambda>x. x \<noteq> []) (queue_of Stdout (snd (snd (caller [Poll]
     ([[Child_write Stdout ''hi'', Thread_step Stdout, Thread_step Stdout, Child_exit 0,
        Thread_step Stdout]], started))))) \<and>
   thread_of Stdout (snd (snd (caller [Poll]
     ([[Child_write Stdout ''hi'', Thread_step Stdout, Thread_step Stdout, Child_exit 0,
        Thread_step Stdout]], started)))) = Closing"
proof -
  have q: "queue_of Stdout (snd (snd (caller [Poll]
     ([[Child_write Stdout ''hi'', Thread_step Stdout, Thread_step Stdout, Child_exit 0,
        Thread_step Stdout]], started)))) = [''hi'']"
    by code_simp
  have t: "thread_of Stdout (snd (snd (caller [Poll]
     ([[Child_write Stdout ''hi'', Thread_step Stdout, Thread_step Stdout, Child_exit 0,
        Thread_step Stdout]], started)))) = Closing"
    by code_simp
  from no_empty_chunk_on_queue[OF started_init, of Stdout "[Poll]"
      "[[Child_write Stdout ''hi'', Thread_step Stdout, Thread_step Stdout, Child_exit 0,
        Thread_step Stdout]]"] q t started_init
  show ?thesis by simp
qed

text \<open>
  What holds of the delivery in every execution of a spawned subprocess, under every
  schedule and whatever calls the caller makes: the bytes handed to a stream's callback
  so far, followed by the bytes still in the queue, in the hand of the drain thread and
  in the pipe, are exactly the bytes the child has written to that stream so far. So
  what has been delivered is always a prefix of the output, and one more call of
  \<^verbatim>\<open>write_contents\<close> extends it by the next bytes of the output: no byte twice, none
  out of order, none skipped. The whole output has been delivered once a call of
  \<^verbatim>\<open>write_contents\<close> that began after the stream's drain thread had seen the end of the
  stream has returned.
\<close>

theorem delivery_is_exactly_once:
  "RealTimeSubprocess_init host cmd out_cb err_cb = Inr w0 \<Longrightarrow>
   delivered sid (snd (snd (caller rs (sch, w0)))) @
     undelivered sid (snd (snd (caller rs (sch, w0)))) =
     written (stream_of sid (snd (snd (caller rs (sch, w0))))) \<and>
   prefix (delivered sid (snd (snd (caller rs (sch, w0)))))
     (delivered sid (snd (snd (write_contents (snd (caller rs (sch, w0))))))) \<and>
   prefix (written (stream_of sid (snd (snd (caller rs (sch, w0))))))
     (written (stream_of sid (snd (snd (write_contents (snd (caller rs (sch, w0)))))))) \<and>
   (at_eof sid (snd (snd (caller rs (sch, w0)))) \<and>
    fst (write_contents (snd (caller rs (sch, w0)))) = None \<longrightarrow>
      delivered sid (snd (snd (write_contents (snd (caller rs (sch, w0)))))) =
        written (stream_of sid (snd (snd (caller rs (sch, w0))))) \<and>
      written (stream_of sid (snd (snd (write_contents (snd (caller rs (sch, w0))))))) =
        written (stream_of sid (snd (snd (caller rs (sch, w0))))) \<and>
      undelivered sid (snd (snd (write_contents (snd (caller rs (sch, w0)))))) = [])"
proof -
  assume init: "RealTimeSubprocess_init host cmd out_cb err_cb = Inr w0"
  obtain os sch' w where c: "caller rs (sch, w0) = (os, (sch', w))"
    by (metis prod_cases3)
  have cons: "conserved sid w"
    using init_invariants(1)[OF init, of sid] conserved_caller[of sid "(sch, w0)" rs]
    by (simp add: c)
  have snd: "eof_sound sid w"
    using init_invariants(3)[OF init, of sid] eof_sound_caller[of sid "(sch, w0)" rs]
    by (simp add: c)
  have 1: "delivered sid w @ undelivered sid w = written (stream_of sid w)"
    using cons by (simp add: conserved_def)
  have 2: "prefix (delivered sid w) (delivered sid (snd (snd (write_contents (sch', w)))))"
    by (rule delivered_write_contents_prefix)
  have 3: "prefix (written (stream_of sid w))
      (written (stream_of sid (snd (snd (write_contents (sch', w))))))"
    by (rule written_write_contents_prefix)
  have 4: "at_eof sid w \<and> fst (write_contents (sch', w)) = None \<longrightarrow>
      delivered sid (snd (snd (write_contents (sch', w)))) = written (stream_of sid w) \<and>
      written (stream_of sid (snd (snd (write_contents (sch', w))))) = written (stream_of sid w) \<and>
      undelivered sid (snd (snd (write_contents (sch', w)))) = []"
    using flush_after_eof[OF _ snd cons] by blast
  from 1 2 3 4 show ?thesis by (simp add: c)
qed


theorem delivery_is_exactly_once_witness:
  "RealTimeSubprocess_init accept_all [''./a.out''] quiet quiet = Inr started \<and>
   at_eof Stdout (snd (snd (caller [Poll]
     ([[Child_write Stdout ''hi'', Child_exit 0, Thread_step Stdout, Thread_step Stdout,
        Thread_step Stdout, Thread_step Stdout]], started)))) \<and>
   fst (write_contents (snd (caller [Poll]
     ([[Child_write Stdout ''hi'', Child_exit 0, Thread_step Stdout, Thread_step Stdout,
        Thread_step Stdout, Thread_step Stdout]], started)))) = None \<and>
   written (stream_of Stdout (snd (snd (caller [Poll]
     ([[Child_write Stdout ''hi'', Child_exit 0, Thread_step Stdout, Thread_step Stdout,
        Thread_step Stdout, Thread_step Stdout]], started))))) = ''hi'' \<and>
   delivered Stdout (snd (snd (write_contents (snd (caller [Poll]
     ([[Child_write Stdout ''hi'', Child_exit 0, Thread_step Stdout, Thread_step Stdout,
        Thread_step Stdout, Thread_step Stdout]], started)))))) = ''hi''"
proof -
  have e: "at_eof Stdout (snd (snd (caller [Poll]
     ([[Child_write Stdout ''hi'', Child_exit 0, Thread_step Stdout, Thread_step Stdout,
        Thread_step Stdout, Thread_step Stdout]], started))))"
    by code_simp
  have r: "fst (write_contents (snd (caller [Poll]
     ([[Child_write Stdout ''hi'', Child_exit 0, Thread_step Stdout, Thread_step Stdout,
        Thread_step Stdout, Thread_step Stdout]], started)))) = None"
    by code_simp
  have w: "written (stream_of Stdout (snd (snd (caller [Poll]
     ([[Child_write Stdout ''hi'', Child_exit 0, Thread_step Stdout, Thread_step Stdout,
        Thread_step Stdout, Thread_step Stdout]], started))))) = ''hi''"
    by code_simp
  from delivery_is_exactly_once[OF started_init, of Stdout "[Poll]"
     "[[Child_write Stdout ''hi'', Child_exit 0, Thread_step Stdout, Thread_step Stdout,
        Thread_step Stdout, Thread_step Stdout]]"] e r w started_init
  show ?thesis by simp
qed

text \<open>
  C1. The delivery is not complete in every execution. The child writes \<^verbatim>\<open>hi\<close> and exits,
  \<^verbatim>\<open>poll\<close> reports the exit, and the call of \<^verbatim>\<open>write_contents\<close> made after it (the last
  call of \<^verbatim>\<open>do_execute\<close>, which is there to collect the rest of the output) finds the
  queue still empty, because the drain thread has not yet run and nothing waits for it.
  Nothing is delivered although the child wrote two bytes, and no later call is made.
\<close>

theorem flush_after_exit_misses_output:
  "fst (caller [Poll, Flush]
     ([[Child_write Stdout ''hi'', Child_exit 0], [], [],
       [Thread_step Stdout, Thread_step Stdout]], started)) =
     [Poll_result (Some 0), Flush_result None] \<and>
   delivered Stdout (snd (snd (caller [Poll, Flush]
     ([[Child_write Stdout ''hi'', Child_exit 0], [], [],
       [Thread_step Stdout, Thread_step Stdout]], started)))) = [] \<and>
   written (stream_of Stdout (snd (snd (caller [Poll, Flush]
     ([[Child_write Stdout ''hi'', Child_exit 0], [], [],
       [Thread_step Stdout, Thread_step Stdout]], started))))) = ''hi'' \<and>
   delivered Stdout (snd (snd (the (poll_and_flush
     ([[Child_write Stdout ''hi'', Child_exit 0], [], [],
       [Thread_step Stdout, Thread_step Stdout]], started))))) \<noteq>
   written (stream_of Stdout (snd (snd (the (poll_and_flush
     ([[Child_write Stdout ''hi'', Child_exit 0], [], [],
       [Thread_step Stdout, Thread_step Stdout]], started))))))"
  by code_simp




text \<open>
  C3. A drain thread at its read, on a stream it can read, does one of three things.
  If bytes are there, it takes up to 4096 of them and, in its next step, puts them on
  its queue as one chunk, at the end, and is at the read again. If none are there and
  the child still holds the write end, the read waits. If none are there and the write
  end is closed, the read returns no byte, the thread closes the stream and has
  finished; a finished thread stays finished and appends nothing, whatever happens.
  Left alone on a pipe that the child has closed, the thread ends after two steps per
  chunk and two more, and has appended the unread bytes cut into chunks of at most 4096
  bytes, none empty, in the order of the bytes. The steps of one stream's thread leave
  the other stream's thread, pipe and queue as they were.
\<close>

theorem drain_loop:
  "chunk_size = 4096 \<and>
   (thread_of sid w = Reading \<and> readable (stream_of sid w) \<and>
    buffered (stream_of sid w) \<noteq> [] \<longrightarrow>
      thread_of sid (drain_alone sid 2 w) = Reading \<and>
      queue_of sid (drain_alone sid 2 w) =
        queue_of sid w @ [take chunk_size (buffered (stream_of sid w))] \<and>
      buffered (stream_of sid (drain_alone sid 2 w)) =
        drop chunk_size (buffered (stream_of sid w))) \<and>
   (thread_of sid w = Reading \<and> readable (stream_of sid w) \<and>
    buffered (stream_of sid w) = [] \<and> writer_open (stream_of sid w) \<longrightarrow>
      bg_step (Thread_step sid) w = w) \<and>
   (thread_of sid w = Reading \<and> readable (stream_of sid w) \<and>
    buffered (stream_of sid w) = [] \<and> \<not> writer_open (stream_of sid w) \<longrightarrow>
      thread_of sid (drain_alone sid 2 w) = Finished \<and>
      queue_of sid (drain_alone sid 2 w) = queue_of sid w \<and>
      handle_closed (stream_of sid (drain_alone sid 2 w))) \<and>
   (thread_of sid w = Finished \<longrightarrow>
      thread_of sid (run_bg es w) = Finished \<and> queue_of sid (run_bg es w) = queue_of sid w) \<and>
   (thread_of sid w = Reading \<and> readable (stream_of sid w) \<and>
    \<not> writer_open (stream_of sid w) \<longrightarrow>
      thread_of sid
        (drain_alone sid (2 * length (chop chunk_size (buffered (stream_of sid w))) + 2) w) =
        Finished \<and>
      queue_of sid
        (drain_alone sid (2 * length (chop chunk_size (buffered (stream_of sid w))) + 2) w) =
        queue_of sid w @ chop chunk_size (buffered (stream_of sid w)) \<and>
      concat (chop chunk_size (buffered (stream_of sid w))) = buffered (stream_of sid w) \<and>
      list_all (\<lambda>x. x \<noteq> [] \<and> length x \<le> chunk_size)
        (chop chunk_size (buffered (stream_of sid w)))) \<and>
   (sid' \<noteq> sid \<longrightarrow>
      thread_of sid' (drain_alone sid k w) = thread_of sid' w \<and>
      stream_of sid' (drain_alone sid k w) = stream_of sid' w \<and>
      queue_of sid' (drain_alone sid k w) = queue_of sid' w)"
proof -
  have 1: "thread_of sid (drain_alone sid 2 w) = Reading \<and>
      queue_of sid (drain_alone sid 2 w) =
        queue_of sid w @ [take chunk_size (buffered (stream_of sid w))] \<and>
      buffered (stream_of sid (drain_alone sid 2 w)) =
        drop chunk_size (buffered (stream_of sid w))"
    if "thread_of sid w = Reading" "readable (stream_of sid w)" "buffered (stream_of sid w) \<noteq> []"
    using read_then_put[OF that] by simp
  have 2: "thread_of sid (drain_alone sid 2 w) = Finished \<and>
      queue_of sid (drain_alone sid 2 w) = queue_of sid w \<and>
      handle_closed (stream_of sid (drain_alone sid 2 w))"
    if "thread_of sid w = Reading" "readable (stream_of sid w)" "buffered (stream_of sid w) = []"
      "\<not> writer_open (stream_of sid w)"
    using read_eof_then_close[OF that] by (simp add: stream_close_def)
  from 1 2 read_blocks[of sid w] finished_forever[of sid w es] drain_to_the_end[of sid w]
    concat_chop[of "buffered (stream_of sid w)"] chop_pieces[of "buffered (stream_of sid w)"]
    drain_alone_other[of sid' sid k w]
  show ?thesis
    by (simp add: chunk_size_def del: bg_step.simps)
qed

theorem drain_loop_witness:
  "thread_of Stdout (run_bg [Child_write Stdout ''abc'', Child_close Stdout] started) = Reading \<and>
   readable (stream_of Stdout (run_bg [Child_write Stdout ''abc'', Child_close Stdout] started)) \<and>
   buffered (stream_of Stdout (run_bg [Child_write Stdout ''abc'', Child_close Stdout] started)) =
     ''abc'' \<and>
   \<not> writer_open (stream_of Stdout
     (run_bg [Child_write Stdout ''abc'', Child_close Stdout] started)) \<and>
   chop chunk_size ''abc'' = [''abc''] \<and>
   thread_of Stdout (drain_alone Stdout 4
     (run_bg [Child_write Stdout ''abc'', Child_close Stdout] started)) = Finished \<and>
   queue_of Stdout (drain_alone Stdout 4
     (run_bg [Child_write Stdout ''abc'', Child_close Stdout] started)) = [''abc''] \<and>
   thread_of Stdout (run_bg [Child_write Stdout ''late'', Thread_step Stdout]
     (drain_alone Stdout 4
       (run_bg [Child_write Stdout ''abc'', Child_close Stdout] started))) = Finished"
proof -
  let ?w = "run_bg [Child_write Stdout ''abc'', Child_close Stdout] started"
  have t: "thread_of Stdout ?w = Reading" by code_simp
  have r: "readable (stream_of Stdout ?w)" by code_simp
  have b: "buffered (stream_of Stdout ?w) = ''abc''" by code_simp
  have c: "\<not> writer_open (stream_of Stdout ?w)" by code_simp
  have q: "queue_of Stdout ?w = []" by code_simp
  have ch: "chop chunk_size ''abc'' = [''abc'']" by code_simp
  note th = drain_loop[of Stdout ?w _ _ _, unfolded b ch]
  have whole: "thread_of Stdout (drain_alone Stdout 4 ?w) = Finished \<and>
      queue_of Stdout (drain_alone Stdout 4 ?w) = [''abc'']"
    using th t r c q by simp
  have f: "thread_of Stdout (drain_alone Stdout 4 ?w) = Finished"
    using whole by simp
  have "thread_of Stdout (run_bg [Child_write Stdout ''late'', Thread_step Stdout]
      (drain_alone Stdout 4 ?w)) = Finished"
    using drain_loop[of Stdout "drain_alone Stdout 4 ?w"
        "[Child_write Stdout ''late'', Thread_step Stdout]"] f
    by (simp del: run_bg_Cons run_bg_Nil bg_step.simps)
  with t r b c ch whole show ?thesis by (simp del: run_bg_Cons run_bg_Nil bg_step.simps)
qed

text \<open>
  C5, as the code has it. When the read of a drain thread raises an I/O error, the
  exception leaves \<^verbatim>\<open>_enqueue_output\<close>: the thread is dead from then on, has appended
  nothing more, and has not closed its stream (the \<^verbatim>\<open>close\<close> after the loop is not
  reached). The other stream's thread, pipe and queue are untouched by this thread's
  steps. The exception does not reach the caller: \<^verbatim>\<open>write_contents\<close> returns, or raises
  what one of the two callbacks raised, and \<^verbatim>\<open>poll\<close> returns the exit status. Nothing
  records the error: whatever calls the caller makes and whatever the schedule, the
  caller sees the same results and the same callback invocations as in the world where
  that thread had simply returned.
\<close>

theorem read_error_is_swallowed:
  "(thread_of sid w = Reading \<and> \<not> handle_closed (stream_of sid w) \<and>
    failing (stream_of sid w) \<longrightarrow>
      thread_of sid (bg_step (Thread_step sid) w) = Crashed OSError \<and>
      queue_of sid (bg_step (Thread_step sid) w) = queue_of sid w \<and>
      stream_of sid (bg_step (Thread_step sid) w) = stream_of sid w) \<and>
   (thread_of sid w = Crashed err \<longrightarrow>
      thread_of sid (run_bg es w) = Crashed err \<and>
      queue_of sid (run_bg es w) = queue_of sid w) \<and>
   (sid' \<noteq> sid \<longrightarrow>
      thread_of sid' (drain_alone sid k w) = thread_of sid' w \<and>
      stream_of sid' (drain_alone sid k w) = stream_of sid' w \<and>
      queue_of sid' (drain_alone sid k w) = queue_of sid' w) \<and>
   (fst (write_contents (sch, w)) = None \<or>
    fst (write_contents (sch, w)) = write_to_stdout w (concat (snapshot Stdout (sch, w))) \<or>
    fst (write_contents (sch, w)) = write_to_stderr w (concat (stderr_snapshot (sch, w)))) \<and>
   (thread_of sid w = Crashed err \<longrightarrow>
      fst (caller rs (sch, w)) = fst (caller rs (sch, hush sid w)) \<and>
      calls (snd (snd (caller rs (sch, w)))) = calls (snd (snd (caller rs (sch, hush sid w)))) \<and>
      returncode (snd (snd (caller rs (sch, w)))) =
        returncode (snd (snd (caller rs (sch, hush sid w)))))"
proof -
  have 1: "thread_of sid (bg_step (Thread_step sid) w) = Crashed OSError \<and>
      queue_of sid (bg_step (Thread_step sid) w) = queue_of sid w \<and>
      stream_of sid (bg_step (Thread_step sid) w) = stream_of sid w"
    if "thread_of sid w = Reading" "\<not> handle_closed (stream_of sid w)" "failing (stream_of sid w)"
    using read_fails[OF that] by (simp del: bg_step.simps)
  have 5: "fst (caller rs (sch, w)) = fst (caller rs (sch, hush sid w)) \<and>
      calls (snd (snd (caller rs (sch, w)))) = calls (snd (snd (caller rs (sch, hush sid w)))) \<and>
      returncode (snd (snd (caller rs (sch, w)))) =
        returncode (snd (snd (caller rs (sch, hush sid w))))"
    if "thread_of sid w = Crashed err"
    by (simp add: hush_caller[OF that])
  from 1 5 crashed_forever[of sid w err es] drain_alone_other[of sid' sid k w]
    write_contents_result[of sch w]
  show ?thesis by (simp del: bg_step.simps)
qed

theorem read_error_is_swallowed_witness:
  "thread_of Stdout (run_bg [Child_write Stdout ''ab'', Io_fault Stdout] started) = Reading \<and>
   \<not> handle_closed (stream_of Stdout
     (run_bg [Child_write Stdout ''ab'', Io_fault Stdout] started)) \<and>
   failing (stream_of Stdout (run_bg [Child_write Stdout ''ab'', Io_fault Stdout] started)) \<and>
   thread_of Stdout (bg_step (Thread_step Stdout)
     (run_bg [Child_write Stdout ''ab'', Io_fault Stdout] started)) = Crashed OSError \<and>
   handle_closed (stream_of Stdout (bg_step (Thread_step Stdout)
     (run_bg [Child_write Stdout ''ab'', Io_fault Stdout] started))) = False \<and>
   fst (caller [Flush, Poll, Flush] ([[Child_exit 1]],
     bg_step (Thread_step Stdout)
       (run_bg [Child_write Stdout ''ab'', Io_fault Stdout] started))) =
   fst (caller [Flush, Poll, Flush] ([[Child_exit 1]],
     hush Stdout (bg_step (Thread_step Stdout)
       (run_bg [Child_write Stdout ''ab'', Io_fault Stdout] started))))"
proof -
  let ?w = "run_bg [Child_write Stdout ''ab'', Io_fault Stdout] started"
  have t: "thread_of Stdout ?w = Reading" by code_simp
  have h: "\<not> handle_closed (stream_of Stdout ?w)" by code_simp
  have f: "failing (stream_of Stdout ?w)" by code_simp
  note a = read_error_is_swallowed[of Stdout ?w, THEN conjunct1]
  have c: "thread_of Stdout (bg_step (Thread_step Stdout) ?w) = Crashed OSError"
    and s: "stream_of Stdout (bg_step (Thread_step Stdout) ?w) = stream_of Stdout ?w"
    using a t h f by (simp_all del: bg_step.simps run_bg_Cons run_bg_Nil)
  note b = read_error_is_swallowed[of Stdout "bg_step (Thread_step Stdout) ?w" OSError _ _ _
      "[[Child_exit 1]]" "[Flush, Poll, Flush]",
      THEN conjunct2, THEN conjunct2, THEN conjunct2, THEN conjunct2]
  have e: "fst (caller [Flush, Poll, Flush] ([[Child_exit 1]], bg_step (Thread_step Stdout) ?w)) =
      fst (caller [Flush, Poll, Flush]
        ([[Child_exit 1]], hush Stdout (bg_step (Thread_step Stdout) ?w)))"
    using b c by (simp del: bg_step.simps run_bg_Cons run_bg_Nil caller.simps)
  from t h f c s e show ?thesis
    by (simp del: bg_step.simps run_bg_Cons run_bg_Nil caller.simps)
qed

text \<open>
  C5, as stated, fails. The read of the stdout thread raises \<^verbatim>\<open>OSError\<close> with two bytes
  unread in the pipe; the thread is dead. The next \<^verbatim>\<open>write_contents\<close> returns without
  an exception and without calling a callback, the next \<^verbatim>\<open>poll\<close> returns the exit status,
  and so on: the caller is told nothing, and the two bytes are never delivered.
\<close>

theorem read_error_reaches_nobody:
  "thread_of Stdout (snd (snd (caller [Flush, Poll, Flush]
     ([[Child_write Stdout ''ab'', Io_fault Stdout, Thread_step Stdout], [], [Child_exit 0],
       [Thread_step Stdout], [Thread_step Stdout]], started)))) = Crashed OSError \<and>
   fst (caller [Flush, Poll, Flush]
     ([[Child_write Stdout ''ab'', Io_fault Stdout, Thread_step Stdout], [], [Child_exit 0],
       [Thread_step Stdout], [Thread_step Stdout]], started)) =
     [Flush_result None, Poll_result (Some 0), Flush_result None] \<and>
   calls (snd (snd (caller [Flush, Poll, Flush]
     ([[Child_write Stdout ''ab'', Io_fault Stdout, Thread_step Stdout], [], [Child_exit 0],
       [Thread_step Stdout], [Thread_step Stdout]], started)))) = [] \<and>
   written (stream_of Stdout (snd (snd (caller [Flush, Poll, Flush]
     ([[Child_write Stdout ''ab'', Io_fault Stdout, Thread_step Stdout], [], [Child_exit 0],
       [Thread_step Stdout], [Thread_step Stdout]], started))))) = ''ab''"
  by code_simp

text \<open>
  The calls that \<^verbatim>\<open>do_execute\<close> makes. For each subprocess (the compiler, and the binary
  when the compiler exited with 0), the record of its calls is: any number of rounds of a
  \<^verbatim>\<open>poll\<close> that found the child running followed by a \<^verbatim>\<open>write_contents\<close>, then the first
  \<^verbatim>\<open>poll\<close> that found it exited, then one more \<^verbatim>\<open>write_contents\<close>; the record only stops
  earlier, after a round, when a callback raised and the exception left \<^verbatim>\<open>do_execute\<close>.
  The same holds for the two loops started in any state. When the child exits at some
  point of the schedule the loops end and \<^verbatim>\<open>do_execute\<close> returns or raises.
\<close>

theorem do_execute_follows_the_usage_pattern:
  "(do_execute host decode compiler source_filename binary_filename cflags ldflags sch1 sch2 =
      Some x \<longrightarrow>
      list_all (\<lambda>p. obeys (history p)) (processes x) \<and>
      (raised x = None \<longrightarrow> list_all (\<lambda>p. completed (history p)) (processes x))) \<and>
   (child_exits sch1 \<and> child_exits sch2 \<longrightarrow>
      do_execute host decode compiler source_filename binary_filename cflags ldflags sch1 sch2 \<noteq>
        None) \<and>
   (poll_and_flush c = Some y \<longrightarrow>
      take (length (history (snd c))) (history (snd (snd y))) = history (snd c) \<and>
      obeys (drop (length (history (snd c))) (history (snd (snd y)))) \<and>
      (fst y = None \<longrightarrow> completed (drop (length (history (snd c))) (history (snd (snd y)))))) \<and>
   (pending c \<longrightarrow> poll_and_flush c \<noteq> None)"
proof -
  have 3: "take (length (history (snd c))) (history (snd (snd y))) = history (snd c) \<and>
      obeys (drop (length (history (snd c))) (history (snd (snd y)))) \<and>
      (fst y = None \<longrightarrow> completed (drop (length (history (snd c))) (history (snd (snd y)))))"
    if "poll_and_flush c = Some y"
    using poll_and_flush_trace[OF that] by auto
  from 3 do_execute_obeys[of host decode compiler source_filename binary_filename cflags ldflags
      sch1 sch2 x]
    do_execute_returns[of sch1 sch2 host decode compiler source_filename binary_filename
      cflags ldflags]
    poll_and_flush_returns[of c]
  show ?thesis by blast
qed

theorem do_execute_follows_the_usage_pattern_witness:
  "child_exits [[], [], [], [Child_exit 0]] \<and>
   child_exits [[Child_write Stdout ''hi'', Thread_step Stdout, Thread_step Stdout, Child_exit 0]] \<and>
   map_option (\<lambda>x. (raised x, map history (processes x)))
     (do_execute accept_all ascii ''g++'' ''a.cc'' ''a.out'' [] []
       [[], [], [], [Child_exit 0]]
       [[Child_write Stdout ''hi'', Thread_step Stdout, Thread_step Stdout, Child_exit 0]]) =
     Some (None, [[Polled None, Flushed, Polled (Some 0), Flushed], [Polled (Some 0), Flushed]]) \<and>
   list_all (\<lambda>p. completed (history p))
     (processes (the (do_execute accept_all ascii ''g++'' ''a.cc'' ''a.out'' [] []
       [[], [], [], [Child_exit 0]]
       [[Child_write Stdout ''hi'', Thread_step Stdout, Thread_step Stdout, Child_exit 0]])))"
proof -
  let ?s1 = "[[], [], [], [Child_exit 0]]"
  let ?s2 = "[[Child_write Stdout ''hi'', Thread_step Stdout, Thread_step Stdout, Child_exit 0]]"
  let ?run = "do_execute accept_all ascii ''g++'' ''a.cc'' ''a.out'' [] [] ?s1 ?s2"
  have e1: "child_exits ?s1" by (simp add: child_exits_def)
  have e2: "child_exits ?s2" by (simp add: child_exits_def)
  have v: "map_option (\<lambda>x. (raised x, map history (processes x))) ?run =
      Some (None, [[Polled None, Flushed, Polled (Some 0), Flushed], [Polled (Some 0), Flushed]])"
    by code_simp
  then obtain x where x: "?run = Some x" and r: "raised x = None"
    by auto
  from do_execute_follows_the_usage_pattern[of accept_all ascii "''g++''" "''a.cc''"
      "''a.out''" "[]" "[]" ?s1 ?s2 x] x r
  have "list_all (\<lambda>p. completed (history p)) (processes x)"
    by blast
  with e1 e2 v x show ?thesis by simp
qed

text \<open>
  C7. \<^verbatim>\<open>do_execute\<close> makes the calls of the usage pattern, and the output still on its way
  when the child exits is lost all the same. The compiler exits with 0, the binary writes
  \<^verbatim>\<open>hi\<close> and exits, \<^verbatim>\<open>poll\<close> reports the exit before the drain thread has run, and the
  last \<^verbatim>\<open>write_contents\<close> finds the queue empty: nothing has waited for the drain thread.
  \<^verbatim>\<open>do_execute\<close> returns having followed the pattern for both subprocesses, and the only
  messages sent are the two announcements of the commands.
\<close>

theorem do_execute_loses_trailing_output:
  "map_option (\<lambda>x. (raised x, map history (processes x), sent x,
       map written (map stdout (processes x)), map (delivered Stdout) (processes x)))
     (do_execute accept_all ascii ''g++'' ''a.cc'' ''a.out'' [] []
       [[Child_exit 0]]
       [[Child_write Stdout ''hi'', Child_exit 0], [], [],
        [Thread_step Stdout, Thread_step Stdout]]) =
     Some (None,
       [[Polled (Some 0), Flushed], [Polled (Some 0), Flushed]],
       [(Stderr, ''running cmd: g++ a.cc -std=c++11 -o a.out'' @ [CHR 0x0A]),
        (Stderr, ''running cmd: a.out'' @ [CHR 0x0A])],
       [[], ''hi''],
       [[], []])"
  by code_simp

text \<open>
  C9. One call of \<^verbatim>\<open>write_contents\<close> is this list of operations, performed in this order:
  the size of the stdout queue is read, each of the stdout chunks is taken, the stdout
  callback is invoked with their concatenation unless it is empty, and only then the size
  of the stderr queue is read, each of the stderr chunks is taken, and the stderr callback
  is invoked unless their concatenation is empty. The size of the stderr queue is read
  after \<open>n + 2\<close> batches of the schedule, \<open>n\<close> the number of stdout chunks taken, so what
  reaches the stderr queue while stdout is being drained belongs to the same call. When
  the stdout callback raises, it has been invoked before anything was done to stderr: the
  call ends there, the stderr queue is as the background left it, and the stdout
  invocation is the only one recorded. When it does not, both queues have lost their
  chunks, and the stdout invocation is recorded before the stderr one.
\<close>

theorem stdout_before_stderr:
  "write_contents (sch, w) =
     perform (flush_ops Stdout (snapshot Stdout (sch, w)) @
              flush_ops Stderr (stderr_snapshot (sch, w))) (sch, flushed w) \<and>
   snapshot Stdout (sch, w) = queue_of Stdout (background 1 (sch, w)) \<and>
   stderr_snapshot (sch, w) =
     queue_of Stderr (background (length (snapshot Stdout (sch, w)) + 2) (sch, w)) \<and>
   (concat (snapshot Stdout (sch, w)) \<noteq> [] \<and>
    write_to_stdout w (concat (snapshot Stdout (sch, w))) = Some e \<longrightarrow>
      fst (write_contents (sch, w)) = Some e \<and>
      fst (snd (write_contents (sch, w))) = drop (Suc (length (snapshot Stdout (sch, w)))) sch \<and>
      queue_of Stdout (snd (snd (write_contents (sch, w)))) =
        drop (length (snapshot Stdout (sch, w)))
          (queue_of Stdout (background (Suc (length (snapshot Stdout (sch, w)))) (sch, w))) \<and>
      queue_of Stderr (snd (snd (write_contents (sch, w)))) =
        queue_of Stderr (background (Suc (length (snapshot Stdout (sch, w)))) (sch, w)) \<and>
      calls (snd (snd (write_contents (sch, w)))) =
        calls w @ [Write_to_stdout (concat (snapshot Stdout (sch, w)))]) \<and>
   (concat (snapshot Stdout (sch, w)) = [] \<or>
    write_to_stdout w (concat (snapshot Stdout (sch, w))) = None \<longrightarrow>
      queue_of Stdout (snd (snd (write_contents (sch, w)))) =
        drop (length (snapshot Stdout (sch, w)))
          (queue_of Stdout
            (background (length (snapshot Stdout (sch, w)) + length (stderr_snapshot (sch, w)) + 2)
              (sch, w))) \<and>
      queue_of Stderr (snd (snd (write_contents (sch, w)))) =
        drop (length (stderr_snapshot (sch, w)))
          (queue_of Stderr
            (background (length (snapshot Stdout (sch, w)) + length (stderr_snapshot (sch, w)) + 2)
              (sch, w))) \<and>
      calls (snd (snd (write_contents (sch, w)))) =
        calls w @
        (if concat (snapshot Stdout (sch, w)) \<noteq> []
         then [Write_to_stdout (concat (snapshot Stdout (sch, w)))] else []) @
        (if concat (stderr_snapshot (sch, w)) \<noteq> []
         then [Write_to_stderr (concat (stderr_snapshot (sch, w)))] else []))"
proof -
  have 1: "write_contents (sch, w) =
     perform (flush_ops Stdout (snapshot Stdout (sch, w)) @
              flush_ops Stderr (stderr_snapshot (sch, w))) (sch, flushed w)"
    by (rule write_contents_perform)
  have 2: "snapshot Stdout (sch, w) = queue_of Stdout (background 1 (sch, w))"
    by (rule snapshot_background)
  have 3: "stderr_snapshot (sch, w) =
     queue_of Stderr (background (length (snapshot Stdout (sch, w)) + 2) (sch, w))"
    by (rule stderr_snapshot_def)
  have 4: "calls (snd (snd (write_contents (sch, w)))) =
        calls w @
        (if concat (snapshot Stdout (sch, w)) \<noteq> []
         then [Write_to_stdout (concat (snapshot Stdout (sch, w)))] else []) @
        (if concat (stderr_snapshot (sch, w)) \<noteq> []
         then [Write_to_stderr (concat (stderr_snapshot (sch, w)))] else [])"
    if "concat (snapshot Stdout (sch, w)) = [] \<or>
      write_to_stdout w (concat (snapshot Stdout (sch, w))) = None"
    using that by (simp only: calls_write_contents) simp
  from 1 2 3 4 write_contents_raised_parts[of sch w e] write_contents_returned_parts(3,4)[of sch w]
  show ?thesis by blast
qed

theorem stdout_before_stderr_witness:
  "write_to_stdout (started\<lparr>write_to_stdout := refusing\<rparr>) ''o'' = Some UnicodeDecodeError \<and>
   snapshot Stdout
     ([[Child_write Stderr ''e'', Thread_step Stderr, Thread_step Stderr,
        Child_write Stdout ''o'', Thread_step Stdout, Thread_step Stdout]],
      started\<lparr>write_to_stdout := refusing\<rparr>) = [''o''] \<and>
   fst (write_contents
     ([[Child_write Stderr ''e'', Thread_step Stderr, Thread_step Stderr,
        Child_write Stdout ''o'', Thread_step Stdout, Thread_step Stdout]],
      started\<lparr>write_to_stdout := refusing\<rparr>)) = Some UnicodeDecodeError \<and>
   queue_of Stderr (snd (snd (write_contents
     ([[Child_write Stderr ''e'', Thread_step Stderr, Thread_step Stderr,
        Child_write Stdout ''o'', Thread_step Stdout, Thread_step Stdout]],
      started\<lparr>write_to_stdout := refusing\<rparr>)))) = [''e''] \<and>
   calls (snd (snd (write_contents
     ([[Child_write Stderr ''e'', Thread_step Stderr, Thread_step Stderr,
        Child_write Stdout ''o'', Thread_step Stdout, Thread_step Stdout]],
      started\<lparr>write_to_stdout := refusing\<rparr>)))) = [Write_to_stdout ''o''] \<and>
   calls (snd (snd (write_contents
     ([[Child_write Stderr ''e'', Thread_step Stderr, Thread_step Stderr,
        Child_write Stdout ''o'', Thread_step Stdout, Thread_step Stdout]], started)))) =
     [Write_to_stdout ''o'', Write_to_stderr ''e'']"
proof -
  let ?s = "[[Child_write Stderr ''e'', Thread_step Stderr, Thread_step Stderr,
        Child_write Stdout ''o'', Thread_step Stdout, Thread_step Stdout]]"
  let ?w = "started\<lparr>write_to_stdout := refusing\<rparr>"
  have c: "write_to_stdout ?w ''o'' = Some UnicodeDecodeError"
    by (simp add: refusing_def)
  have 1: "snapshot Stdout (?s, ?w) = [''o'']"
    by code_simp
  have 2: "queue_of Stderr (background (Suc (length [''o''])) (?s, ?w)) = [''e'']"
    by code_simp
  have 3: "snapshot Stdout (?s, started) = [''o'']"
    by code_simp
  have 4: "stderr_snapshot (?s, started) = [''e'']"
    by code_simp
  have 5: "write_to_stdout started ''o'' = None" "calls started = []" "calls ?w = []"
    by (simp_all add: started_def quiet_def)
  note raising = stdout_before_stderr[of ?s ?w UnicodeDecodeError,
      THEN conjunct2, THEN conjunct2, THEN conjunct2, THEN conjunct1]
  note returning = stdout_before_stderr[of ?s started UnicodeDecodeError,
      THEN conjunct2, THEN conjunct2, THEN conjunct2, THEN conjunct2]
  have a: "fst (write_contents (?s, ?w)) = Some UnicodeDecodeError \<and>
      queue_of Stderr (snd (snd (write_contents (?s, ?w)))) = [''e''] \<and>
      calls (snd (snd (write_contents (?s, ?w)))) = [Write_to_stdout ''o'']"
    using raising c 5
    unfolding 1 2 by simp
  have b: "calls (snd (snd (write_contents (?s, started)))) =
      [Write_to_stdout ''o'', Write_to_stderr ''e'']"
    using returning 5
    unfolding 3 4 by simp
  from a b c 1 show ?thesis by simp
qed


text \<open>
  C2, as the code has it. \<^verbatim>\<open>read_all_from_queue\<close> always returns (\<^verbatim>\<open>get_nowait\<close> never raises
  \<^verbatim>\<open>Empty\<close> and nothing in it waits for the child): it returns the concatenation of the
  chunks that were on the queue when \<^verbatim>\<open>qsize\<close> read it, uses one batch of the schedule per
  queue operation, and leaves the world that the background alone would have made, less
  the first \<open>n\<close> chunks of the queue, \<open>n\<close> the size read; those \<open>n\<close> chunks are the ones
  of the snapshot, and every chunk appended later stays. \<^verbatim>\<open>write_contents\<close> always ends,
  after \<open>n1 + n2 + 2\<close> queue operations at most. It takes from the stdout queue the \<open>n1\<close>
  chunks of its snapshot and calls the stdout callback with their concatenation if and
  only if that is not empty. When that callback raises, the exception leaves
  \<^verbatim>\<open>write_contents\<close>: nothing is taken from the stderr queue and the stderr callback is not
  called. Otherwise it takes from the stderr queue the \<open>n2\<close> chunks of its snapshot and
  calls the stderr callback with their concatenation if and only if that is not empty;
  what that callback raises leaves \<^verbatim>\<open>write_contents\<close> too. When the child writes no byte,
  no callback is ever invoked.
\<close>

theorem flush_takes_the_snapshot:
  "read_all_from_queue sid c =
     (Inr (concat (snapshot sid c)),
      (drop (Suc (length (snapshot sid c))) (fst c),
       dropq sid (length (snapshot sid c)) (background (Suc (length (snapshot sid c))) c))) \<and>
   take (length (snapshot sid c)) (queue_of sid (background (Suc (length (snapshot sid c))) c)) =
     snapshot sid c \<and>
   (concat (snapshot Stdout (sch, w)) = [] \<or>
    write_to_stdout w (concat (snapshot Stdout (sch, w))) = None \<longrightarrow>
      write_contents (sch, w) =
        ((if concat (stderr_snapshot (sch, w)) \<noteq> []
          then write_to_stderr w (concat (stderr_snapshot (sch, w))) else None),
         (drop (length (snapshot Stdout (sch, w)) + length (stderr_snapshot (sch, w)) + 2) sch,
          flushed (deliver Stderr (length (stderr_snapshot (sch, w)))
            (deliver Stdout (length (snapshot Stdout (sch, w)))
              (background
                (length (snapshot Stdout (sch, w)) + length (stderr_snapshot (sch, w)) + 2)
                (sch, w)))))) \<and>
      queue_of Stdout (snd (snd (write_contents (sch, w)))) =
        drop (length (snapshot Stdout (sch, w)))
          (queue_of Stdout
            (background (length (snapshot Stdout (sch, w)) + length (stderr_snapshot (sch, w)) + 2)
              (sch, w))) \<and>
      take (length (snapshot Stdout (sch, w)))
          (queue_of Stdout
            (background (length (snapshot Stdout (sch, w)) + length (stderr_snapshot (sch, w)) + 2)
              (sch, w))) = snapshot Stdout (sch, w) \<and>
      queue_of Stderr (snd (snd (write_contents (sch, w)))) =
        drop (length (stderr_snapshot (sch, w)))
          (queue_of Stderr
            (background (length (snapshot Stdout (sch, w)) + length (stderr_snapshot (sch, w)) + 2)
              (sch, w))) \<and>
      take (length (stderr_snapshot (sch, w)))
          (queue_of Stderr
            (background (length (snapshot Stdout (sch, w)) + length (stderr_snapshot (sch, w)) + 2)
              (sch, w))) = stderr_snapshot (sch, w)) \<and>
   (concat (snapshot Stdout (sch, w)) \<noteq> [] \<and>
    write_to_stdout w (concat (snapshot Stdout (sch, w))) = Some e \<longrightarrow>
      write_contents (sch, w) =
        (Some e,
         (drop (Suc (length (snapshot Stdout (sch, w)))) sch,
          flushed (deliver Stdout (length (snapshot Stdout (sch, w)))
            (background (Suc (length (snapshot Stdout (sch, w)))) (sch, w))))) \<and>
      queue_of Stdout (snd (snd (write_contents (sch, w)))) =
        drop (length (snapshot Stdout (sch, w)))
          (queue_of Stdout (background (Suc (length (snapshot Stdout (sch, w)))) (sch, w))) \<and>
      queue_of Stderr (snd (snd (write_contents (sch, w)))) =
        queue_of Stderr (background (Suc (length (snapshot Stdout (sch, w)))) (sch, w))) \<and>
   calls (snd (snd (write_contents (sch, w)))) =
     calls w @
     (if concat (snapshot Stdout (sch, w)) \<noteq> []
      then [Write_to_stdout (concat (snapshot Stdout (sch, w)))] else []) @
     (if (concat (snapshot Stdout (sch, w)) = [] \<or>
          write_to_stdout w (concat (snapshot Stdout (sch, w))) = None) \<and>
         concat (stderr_snapshot (sch, w)) \<noteq> []
      then [Write_to_stderr (concat (stderr_snapshot (sch, w)))] else []) \<and>
   (RealTimeSubprocess_init host cmd out_cb err_cb = Inr w0 \<and> silent sch0 \<longrightarrow>
      calls (snd (snd (caller rs (sch0, w0)))) = [])"
proof -
  note a = read_all_from_queue_linear[of sid c] snapshot_is_taken[of sid c]
  note b = write_contents_returned[of sch w] write_contents_returned_parts(3,4)[of sch w]
    snapshots_are_taken[of sch w]
  note c = write_contents_raised[of sch w e] write_contents_raised_parts(3,4)[of sch w e]
  note d = calls_write_contents[of sch w] silent_child_no_calls[of host cmd out_cb err_cb w0 sch0 rs]
  from a b c d show ?thesis by blast
qed

theorem flush_takes_the_snapshot_witness:
  "RealTimeSubprocess_init accept_all [''./a.out''] quiet quiet = Inr started \<and>
   silent [[Thread_step Stdout], [Child_write Stderr [], Child_exit 0], [Thread_step Stdout]] \<and>
   calls (snd (snd (caller [Flush, Poll, Flush]
     ([[Thread_step Stdout], [Child_write Stderr [], Child_exit 0], [Thread_step Stdout]],
      started)))) = [] \<and>
   snapshot Stdout
     ([[Child_write Stdout ''ab'', Thread_step Stdout, Thread_step Stdout],
       [Child_write Stdout ''cd'', Thread_step Stdout, Thread_step Stdout]], started) = [''ab''] \<and>
   write_to_stdout started ''ab'' = None \<and>
   fst (write_contents
     ([[Child_write Stdout ''ab'', Thread_step Stdout, Thread_step Stdout],
       [Child_write Stdout ''cd'', Thread_step Stdout, Thread_step Stdout]], started)) = None \<and>
   queue_of Stdout (snd (snd (write_contents
     ([[Child_write Stdout ''ab'', Thread_step Stdout, Thread_step Stdout],
       [Child_write Stdout ''cd'', Thread_step Stdout, Thread_step Stdout]], started)))) = [''cd''] \<and>
   calls (snd (snd (write_contents
     ([[Child_write Stdout ''ab'', Thread_step Stdout, Thread_step Stdout],
       [Child_write Stdout ''cd'', Thread_step Stdout, Thread_step Stdout]], started)))) =
     [Write_to_stdout ''ab'']"
proof -
  let ?q = "[[Thread_step Stdout], [Child_write Stderr [], Child_exit 0], [Thread_step Stdout]]"
  let ?s = "[[Child_write Stdout ''ab'', Thread_step Stdout, Thread_step Stdout],
       [Child_write Stdout ''cd'', Thread_step Stdout, Thread_step Stdout]]"
  have s: "silent ?q"
    by (simp add: silent_def)
  have 1: "snapshot Stdout (?s, started) = [''ab'']"
    by code_simp
  have 2: "stderr_snapshot (?s, started) = []"
    by code_simp
  have 3: "stdout_queue (background (Suc (Suc (Suc 0))) (?s, started)) = [''ab'', ''cd'']"
    by code_simp
  have 4: "write_to_stdout started ''ab'' = None" "calls started = []"
    by (simp_all add: started_def quiet_def)
  note th = flush_takes_the_snapshot[of Stdout "(?s, started)" ?s started UnicodeDecodeError
      accept_all "[''./a.out'']" quiet quiet started ?q "[Flush, Poll, Flush]"]
  note returning = th[THEN conjunct2, THEN conjunct2, THEN conjunct1]
  note recorded = th[THEN conjunct2, THEN conjunct2, THEN conjunct2, THEN conjunct2,
      THEN conjunct1]
  note silence = th[THEN conjunct2, THEN conjunct2, THEN conjunct2, THEN conjunct2,
      THEN conjunct2]
  have a: "fst (write_contents (?s, started)) = None \<and>
      queue_of Stdout (snd (snd (write_contents (?s, started)))) = [''cd'']"
    using returning 4
    unfolding 1 2 by (simp add: 3)
  have b: "calls (snd (snd (write_contents (?s, started)))) = [Write_to_stdout ''ab'']"
    using recorded 4
    unfolding 1 2 by simp
  have c: "calls (snd (snd (caller [Flush, Poll, Flush] (?q, started)))) = []"
    using silence started_init s by blast
  from a b c s 1 4 started_init show ?thesis by simp
qed

text \<open>
  C2, as stated, fails when the stdout callback raises: the stderr queue holds a chunk
  from before the call to after it, the call takes nothing from it and does not invoke
  the stderr callback.
\<close>

theorem raising_stdout_callback_skips_stderr:
  "RealTimeSubprocess_init accept_all [''./a.out''] refusing quiet =
     Inr (started\<lparr>write_to_stdout := refusing\<rparr>) \<and>
   queue_of Stderr (background 1
     ([[Child_write Stderr ''e'', Thread_step Stderr, Thread_step Stderr,
        Child_write Stdout ''o'', Thread_step Stdout, Thread_step Stdout]],
      started\<lparr>write_to_stdout := refusing\<rparr>)) = [''e''] \<and>
   fst (write_contents
     ([[Child_write Stderr ''e'', Thread_step Stderr, Thread_step Stderr,
        Child_write Stdout ''o'', Thread_step Stdout, Thread_step Stdout]],
      started\<lparr>write_to_stdout := refusing\<rparr>)) = Some UnicodeDecodeError \<and>
   queue_of Stderr (snd (snd (write_contents
     ([[Child_write Stderr ''e'', Thread_step Stderr, Thread_step Stderr,
        Child_write Stdout ''o'', Thread_step Stdout, Thread_step Stdout]],
      started\<lparr>write_to_stdout := refusing\<rparr>)))) = [''e''] \<and>
   calls (snd (snd (write_contents
     ([[Child_write Stderr ''e'', Thread_step Stderr, Thread_step Stderr,
        Child_write Stdout ''o'', Thread_step Stdout, Thread_step Stdout]],
      started\<lparr>write_to_stdout := refusing\<rparr>)))) = [Write_to_stdout ''o'']"
proof -
  have a: "RealTimeSubprocess_init accept_all [''./a.out''] refusing quiet =
     Inr (started\<lparr>write_to_stdout := refusing\<rparr>)"
    by (simp add: RealTimeSubprocess_init_def accept_all_def started_def)
  have b: "queue_of Stderr (background 1
     ([[Child_write Stderr ''e'', Thread_step Stderr, Thread_step Stderr,
        Child_write Stdout ''o'', Thread_step Stdout, Thread_step Stdout]],
      started\<lparr>write_to_stdout := refusing\<rparr>)) = [''e''] \<and>
   fst (write_contents
     ([[Child_write Stderr ''e'', Thread_step Stderr, Thread_step Stderr,
        Child_write Stdout ''o'', Thread_step Stdout, Thread_step Stdout]],
      started\<lparr>write_to_stdout := refusing\<rparr>)) = Some UnicodeDecodeError \<and>
   queue_of Stderr (snd (snd (write_contents
     ([[Child_write Stderr ''e'', Thread_step Stderr, Thread_step Stderr,
        Child_write Stdout ''o'', Thread_step Stdout, Thread_step Stdout]],
      started\<lparr>write_to_stdout := refusing\<rparr>)))) = [''e''] \<and>
   calls (snd (snd (write_contents
     ([[Child_write Stderr ''e'', Thread_step Stderr, Thread_step Stderr,
        Child_write Stdout ''o'', Thread_step Stdout, Thread_step Stdout]],
      started\<lparr>write_to_stdout := refusing\<rparr>)))) = [Write_to_stdout ''o'']"
    by code_simp
  from a b show ?thesis by (rule conjI)
qed

end
